theory Spec2Isabelle
  imports Main "HOL-Library.Sublist" "HOL-Library.Word"
begin

section \<open>Data model\<close>

text \<open>
  The engine of \<^verbatim>\<open>aliasing.py\<close> and \<^verbatim>\<open>manager.py\<close> works on pandas objects. A
  \<^verbatim>\<open>Series\<close> is its name and its rows, each the label of the row with its value; a
  \<^verbatim>\<open>DataFrame\<close> is its row labels and its columns, each a name with one value per
  label. Row labels are integers, as the tables read from a source have them. An
  integer cell is an \<^verbatim>\<open>int64\<close>; a real cell is the 64 bits of a \<^verbatim>\<open>float64\<close>, into
  which nothing here looks; \<open>NaN\<close> is the missing value that pandas fills in where a
  label has no row. What a proxy's \<^verbatim>\<open>__getitem__\<close> hands back is either one Series
  or a Python list of Series (\<^verbatim>\<open>isinstance(out, list)\<close> in \<^verbatim>\<open>getAliasedDF\<close>).
\<close>

datatype cell = Int64 "64 word" | Float64 "64 word" | Flag bool | Str string | NaN

type_synonym series = "string \<times> (int \<times> cell) list"

type_synonym frame = "int list \<times> (string \<times> cell list) list"

datatype out = Single series | Multi "series list"

datatype py_error =
    ValueError string
  | KeyError string
  | NameError string
  | IndexError
  | IndexingError
  | PandasError string

text \<open>
  An alias function \<^verbatim>\<open>fct(df, grps)\<close> is an arbitrary callable; all it can do with
  the proxy \<^verbatim>\<open>df\<close> it receives is index it, \<^verbatim>\<open>df[key]\<close>, and compute on what
  comes back. Such a callable is the tree of its requests: \<open>Get key k\<close> asks the proxy
  for \<open>key\<close> and goes on as \<open>k\<close> of the answer, \<open>Ret v\<close> returns \<open>v\<close>. The same tree
  is run by the spy (on dummy data) and by the aliasing proxy (on real data). A row
  filter \<^verbatim>\<open>loc(df)\<close> is a callable of the same kind.
\<close>

datatype prog = Ret out | Get string "out \<Rightarrow> prog"

type_synonym groups = "string option list"

subsection \<open>Regular expressions\<close>

text \<open>
  \<^verbatim>\<open>Alias.__init__\<close> compiles its pattern with the \<^verbatim>\<open>regex\<close> library and the spy
  calls \<^verbatim>\<open>re.search(a.regex, key)\<close>. The library is modelled by a backtracking
  matcher over the syntax tree of a pattern: a configuration is the position in the
  name, the rest of the name and the captures so far; running a pattern gives the
  configurations it can end in, in the order backtracking tries them (greedy star,
  left alternative first).
\<close>

datatype rx =
    Chr char
  | Dot
  | Eps
  | Cat rx rx
  | Alt rx rx
  | Star rx
  | Grp nat rx
  | Bol
  | Eol

type_synonym rx_conf = "nat \<times> string \<times> groups"

text \<open>
  A starred pattern: each way the body matches is followed by further repetitions when
  it consumed something, and ends the repetition when it consumed nothing; matching
  the body no more comes last. The number bounds the repetitions that consume.
\<close>

primrec rx_star :: "nat \<Rightarrow> (rx_conf \<Rightarrow> rx_conf list) \<Rightarrow> rx_conf \<Rightarrow> rx_conf list" where
  "rx_star 0 f c = f c @ [c]"
| "rx_star (Suc n) f c =
     concat (map (\<lambda>c'. if length (fst (snd c')) < length (fst (snd c))
                         then rx_star n f c' else [c']) (f c)) @ [c]"

fun rx_run :: "rx \<Rightarrow> rx_conf \<Rightarrow> rx_conf list" where
  "rx_run (Chr a) (p, s, g) =
     (case s of [] \<Rightarrow> [] | x # xs \<Rightarrow> if x = a then [(Suc p, xs, g)] else [])"
| "rx_run Dot (p, s, g) =
     (case s of [] \<Rightarrow> [] | x # xs \<Rightarrow> if x = CHR 0x0A then [] else [(Suc p, xs, g)])"
| "rx_run Eps c = [c]"
| "rx_run (Cat a b) c = concat (map (rx_run b) (rx_run a c))"
| "rx_run (Alt a b) c = rx_run a c @ rx_run b c"
| "rx_run (Star a) (p, s, g) = rx_star (length s) (\<lambda>c. rx_run a c) (p, s, g)"
| "rx_run (Grp i a) (p, s, g) =
     map (\<lambda>(p', s', g'). (p', s', g'[i := Some (take (p' - p) s)])) (rx_run a (p, s, g))"
| "rx_run Bol (p, s, g) = (if p = 0 then [(p, s, g)] else [])"
| "rx_run Eol (p, s, g) = (if s = [] \<or> s = [CHR 0x0A] then [(p, s, g)] else [])"

primrec ngroups :: "rx \<Rightarrow> nat" where
  "ngroups (Chr a) = 0"
| "ngroups Dot = 0"
| "ngroups Eps = 0"
| "ngroups (Cat a b) = ngroups a + ngroups b"
| "ngroups (Alt a b) = ngroups a + ngroups b"
| "ngroups (Star a) = ngroups a"
| "ngroups (Grp i a) = Suc (ngroups a)"
| "ngroups Bol = 0"
| "ngroups Eol = 0"

text \<open>
  \<open>match_at r p s\<close>: the pattern matches some substring that starts at position \<open>p\<close>
  of the name, \<open>s\<close> being the name from \<open>p\<close> on; the result is \<^verbatim>\<open>match.groups()\<close>
  of the first way to match there.
\<close>

definition match_at :: "rx \<Rightarrow> nat \<Rightarrow> string \<Rightarrow> groups option" where
  "match_at r p s =
     (case rx_run r (p, s, replicate (ngroups r) None) of
        [] \<Rightarrow> None
      | c # _ \<Rightarrow> Some (snd (snd c)))"

fun search_from :: "rx \<Rightarrow> nat \<Rightarrow> string \<Rightarrow> groups option" where
  "search_from r p [] = match_at r p []"
| "search_from r p (x # xs) =
     (case match_at r p (x # xs) of
        Some g \<Rightarrow> Some g
      | None \<Rightarrow> search_from r (Suc p) xs)"

text \<open>\<^verbatim>\<open>re.search\<close>: the leftmost position of the name where the pattern matches.\<close>

definition re_search :: "rx \<Rightarrow> string \<Rightarrow> groups option" where
  "re_search r key = search_from r 0 key"

subsection \<open>Aliases and alias groups\<close>

text \<open>
  \<^verbatim>\<open>class Alias\<close>: the compiled pattern and the alias function. References between
  objects (\<^verbatim>\<open>ref_alias_grps\<close>, \<^verbatim>\<open>ref_sources\<close>) belong to the manager's store,
  below; the engine only reads \<^verbatim>\<open>regex\<close> and \<^verbatim>\<open>alias_fct\<close>.
\<close>

record Alias =
  regex :: rx
  alias_fct :: "groups \<Rightarrow> prog"

text \<open>
  The loop of \<^verbatim>\<open>DFProxyGetItemSpy.__getitem__\<close> over \<^verbatim>\<open>self._aliases\<close>: the
  first alias, in list order, whose pattern is found in the key, with the groups of
  that match.
\<close>

fun find_alias :: "Alias list \<Rightarrow> string \<Rightarrow> (Alias \<times> groups) option" where
  "find_alias [] key = None"
| "find_alias (a # as) key =
     (case re_search (regex a) key of
        Some grps \<Rightarrow> Some (a, grps)
      | None \<Rightarrow> find_alias as key)"

section \<open>The spy: trace pass\<close>

text \<open>
  \<^verbatim>\<open>class DFProxyGetItemSpy\<close>. An entry of \<^verbatim>\<open>_aliasing_map\<close> is \<open>None\<close> for a
  final variable and the pair \<^verbatim>\<open>(fct, grps)\<close> for an aliased one, so the map sends a
  key to an optional pair.
\<close>

type_synonym aliasing = "((groups \<Rightarrow> prog) \<times> groups) option"

record spy =
  spy_aliases :: "Alias list"
  aliasing_map :: "string \<rightharpoonup> aliasing"
  vnames_used :: "string list"
  vnames_valid :: "string list"
  N_call :: nat

definition df_dum :: out where
  "df_dum = Single (''dum'', [(0, Int64 1)])"

definition spy_init :: "Alias list \<Rightarrow> string list \<Rightarrow> spy" where
  "spy_init als valid =
     \<lparr>spy_aliases = als, aliasing_map = Map.empty, vnames_used = [],
      vnames_valid = valid, N_call = 0\<rparr>"

definition infinite_loop_msg :: "string \<Rightarrow> string" where
  "infinite_loop_msg key = ''Infinite loop in aliasing spy: '' @ key"

definition not_valid_msg :: "string \<Rightarrow> string" where
  "not_valid_msg key = [CHR 0x27] @ key @ [CHR 0x27] @ '' is not a valid variable name''"

text \<open>
  \<^verbatim>\<open>__getitem__\<close> calls the alias function, which calls \<^verbatim>\<open>__getitem__\<close> again:
  the two are defined together, by recursion on a bound on the depth of the calls.
  \<open>None\<close> says the bound was too small; an exception of the source is \<open>Inl\<close>.
  An alias function is taken to index the proxy and compute, not to raise or catch
  exceptions of its own, and the limit of the interpreter on the depth of its own
  stack is left out: the only bound in the model is the one the code counts.
\<close>

fun spy_getitem :: "nat \<Rightarrow> spy \<Rightarrow> string \<Rightarrow> (py_error + out \<times> spy) option"
  and spy_call :: "nat \<Rightarrow> spy \<Rightarrow> prog \<Rightarrow> (py_error + out \<times> spy) option" where
  "spy_getitem 0 s key = None"
| "spy_getitem (Suc n) s key =
     (let s1 = s\<lparr>N_call := N_call s + 1\<rparr> in
      if N_call s1 > 1000 then Some (Inl (ValueError (infinite_loop_msg key)))
      else (case aliasing_map s1 key of
        Some e \<Rightarrow> Some (Inr (df_dum, s1))
      | None \<Rightarrow>
         (case find_alias (spy_aliases s1) key of
            Some (a, grps) \<Rightarrow>
              spy_call n
                (s1\<lparr>aliasing_map := (aliasing_map s1)(key \<mapsto> Some (alias_fct a, grps))\<rparr>)
                (alias_fct a grps)
          | None \<Rightarrow>
              if key \<notin> set (vnames_valid s1) then Some (Inl (KeyError (not_valid_msg key)))
              else Some (Inr (df_dum,
                     s1\<lparr>aliasing_map := (aliasing_map s1)(key \<mapsto> None),
                        vnames_used := vnames_used s1 @ [key]\<rparr>)))))"
| "spy_call 0 s p = None"
| "spy_call (Suc n) s (Ret v) = Some (Inr (v, s))"
| "spy_call (Suc n) s (Get key k) =
     (case spy_getitem n s key of
        None \<Rightarrow> None
      | Some (Inl e) \<Rightarrow> Some (Inl e)
      | Some (Inr (v, s')) \<Rightarrow> spy_call n s' (k v))"

text \<open>The loop \<^verbatim>\<open>for vname in vnames: _ = spy[vname]\<close> of \<^verbatim>\<open>getAliasedDF\<close>.\<close>

fun spy_trace :: "nat \<Rightarrow> spy \<Rightarrow> string list \<Rightarrow> (py_error + spy) option" where
  "spy_trace n s [] = Some (Inr s)"
| "spy_trace n s (v # vs) =
     (case spy_getitem n s v of
        None \<Rightarrow> None
      | Some (Inl e) \<Rightarrow> Some (Inl e)
      | Some (Inr (x, s')) \<Rightarrow> spy_trace n s' vs)"

section \<open>The aliasing proxy: materialize pass\<close>

text \<open>
  \<^verbatim>\<open>class DFProxyAliasing\<close>: the fetched table and the map the spy built.
  \<^verbatim>\<open>self._aliasing_map[key]\<close> and \<^verbatim>\<open>self._df[key]\<close> raise \<^verbatim>\<open>KeyError(key)\<close> on a
  key they do not hold. There is no call counter in this class.
\<close>

record DFProxyAliasing =
  px_aliasing_map :: "string \<rightharpoonup> aliasing"
  px_df :: frame

definition df_getitem :: "frame \<Rightarrow> string \<Rightarrow> py_error + out" where
  "df_getitem df key =
     (case find (\<lambda>c. fst c = key) (snd df) of
        None \<Rightarrow> Inl (KeyError key)
      | Some c \<Rightarrow> Inr (Single (key, zip (fst df) (snd c))))"

fun proxy_getitem :: "nat \<Rightarrow> DFProxyAliasing \<Rightarrow> string \<Rightarrow> (py_error + out) option"
  and proxy_call :: "nat \<Rightarrow> DFProxyAliasing \<Rightarrow> prog \<Rightarrow> (py_error + out) option" where
  "proxy_getitem 0 px key = None"
| "proxy_getitem (Suc n) px key =
     (case px_aliasing_map px key of
        None \<Rightarrow> Some (Inl (KeyError key))
      | Some None \<Rightarrow> Some (df_getitem (px_df px) key)
      | Some (Some (fct, grps)) \<Rightarrow> proxy_call n px (fct grps))"
| "proxy_call 0 px p = None"
| "proxy_call (Suc n) px (Ret v) = Some (Inr v)"
| "proxy_call (Suc n) px (Get key k) =
     (case proxy_getitem n px key of
        None \<Rightarrow> None
      | Some (Inl e) \<Rightarrow> Some (Inl e)
      | Some (Inr v) \<Rightarrow> proxy_call n px (k v))"

text \<open>
  The second loop of \<^verbatim>\<open>getAliasedDF\<close>: a list result is spliced into
  \<^verbatim>\<open>series_out\<close>, a Series is renamed to the requested name and appended.
\<close>

definition rename :: "series \<Rightarrow> string \<Rightarrow> series" where
  "rename c vname = (vname, snd c)"

definition collect :: "string \<Rightarrow> out \<Rightarrow> series list" where
  "collect vname v = (case v of Multi cs \<Rightarrow> cs | Single c \<Rightarrow> [rename c vname])"

fun materialize :: "nat \<Rightarrow> DFProxyAliasing \<Rightarrow> string list \<Rightarrow> series list
    \<Rightarrow> (py_error + series list) option" where
  "materialize n px [] series_out = Some (Inr series_out)"
| "materialize n px (v # vs) series_out =
     (case proxy_getitem n px v of
        None \<Rightarrow> None
      | Some (Inl e) \<Rightarrow> Some (Inl e)
      | Some (Inr x) \<Rightarrow> materialize n px vs (series_out @ collect v x))"

section \<open>The pandas operations of the orchestrator\<close>

definition labels :: "series \<Rightarrow> int list" where
  "labels c = map fst (snd c)"

definition cells :: "series \<Rightarrow> cell list" where
  "cells c = map snd (snd c)"

definition cell_at :: "series \<Rightarrow> int \<Rightarrow> cell" where
  "cell_at c l = (case map_of (snd c) l of None \<Rightarrow> NaN | Some v \<Rightarrow> v)"

definition first_seen :: "int list \<Rightarrow> int list" where
  "first_seen ls = rev (remdups (rev ls))"

text \<open>
  \<^verbatim>\<open>pd.concat(series_out, axis=1)\<close> refuses an empty list and aligns the Series on
  their row labels. Series that all have the same labels are put side by side. Otherwise
  the rows of the result are the labels of all the Series, each once, in the order in
  which they first come, and a Series has \<open>NaN\<close> at a label it lacks; pandas
  refuses this when a Series has a label twice.
\<close>

definition concat_axis1 :: "series list \<Rightarrow> py_error + frame" where
  "concat_axis1 cs =
     (if cs = [] then Inl (ValueError ''No objects to concatenate'')
      else if list_all (\<lambda>c. labels c = labels (hd cs)) cs
      then Inr (labels (hd cs), map (\<lambda>c. (fst c, cells c)) cs)
      else if list_all (\<lambda>c. distinct (labels c)) cs
      then (let idx = first_seen (concat (map labels cs))
            in Inr (idx, map (\<lambda>c. (fst c, map (cell_at c) idx)) cs))
      else Inl (PandasError ''Reindexing only valid with uniquely valued Index objects''))"

text \<open>
  \<^verbatim>\<open>df.loc[indexer]\<close>. A boolean Series is a mask: with the labels of the table it
  is applied row by row; with other labels, all different and among them those of the
  table, it is first aligned on the labels of the table; the rows where it is true are
  kept, in their order. A Series that is not boolean is a list of labels: the rows of
  each label are taken, in the order of the list, and a label that the table lacks is a
  \<^verbatim>\<open>KeyError\<close>. Labels are integer cells; a Series of other cells is answered here as
  one of labels that the table lacks.
\<close>

definition is_flag :: "cell \<Rightarrow> bool" where
  "is_flag c = (case c of Flag b \<Rightarrow> True | _ \<Rightarrow> False)"

definition keep_rows :: "cell list \<Rightarrow> 'a list \<Rightarrow> 'a list" where
  "keep_rows m xs = map snd (filter (\<lambda>p. fst p = Flag True) (zip m xs))"

definition mask_rows :: "cell list \<Rightarrow> frame \<Rightarrow> frame" where
  "mask_rows m df = (keep_rows m (fst df), map (\<lambda>c. (fst c, keep_rows m (snd c))) (snd df))"

definition label_of :: "cell \<Rightarrow> int option" where
  "label_of c = (case c of Int64 w \<Rightarrow> Some (sint w) | _ \<Rightarrow> None)"

definition positions_of :: "int list \<Rightarrow> int \<Rightarrow> nat list" where
  "positions_of idx l = filter (\<lambda>i. idx ! i = l) [0..<length idx]"

definition take_rows :: "nat list \<Rightarrow> frame \<Rightarrow> frame" where
  "take_rows ps df =
     (map (\<lambda>i. fst df ! i) ps, map (\<lambda>c. (fst c, map (\<lambda>i. snd c ! i) ps)) (snd df))"

definition df_loc :: "frame \<Rightarrow> out \<Rightarrow> py_error + frame" where
  "df_loc df indexer =
     (case indexer of
        Multi cs \<Rightarrow> Inl (PandasError ''list of Series as indexer'')
      | Single b \<Rightarrow>
          if list_all is_flag (cells b)
          then (if labels b = fst df then Inr (mask_rows (cells b) df)
                else if distinct (labels b)
                then (if list_all (\<lambda>l. l \<in> set (labels b)) (fst df)
                      then Inr (mask_rows (map (cell_at b) (fst df)) df)
                      else Inl IndexingError)
                else Inl (PandasError ''boolean indexer with repeated labels''))
          else (case those (map label_of (cells b)) of
                  None \<Rightarrow> Inl (KeyError ''not in index'')
                | Some ls \<Rightarrow>
                    if list_all (\<lambda>l. l \<in> set (fst df)) ls
                    then Inr (take_rows (concat (map (positions_of (fst df)) ls)) df)
                    else Inl (KeyError ''not in index'')))"

text \<open>
  \<^verbatim>\<open>df.iloc[iloc]\<close> with a slice \<^verbatim>\<open>start:stop\<close>: a negative bound counts from the
  end, and bounds are clipped to the table.
\<close>

type_synonym slice = "int option \<times> int option"

definition slice_bound :: "nat \<Rightarrow> int \<Rightarrow> nat" where
  "slice_bound n i = (if i < 0 then nat (max (int n + i) 0) else min (nat i) n)"

definition py_slice :: "slice \<Rightarrow> 'a list \<Rightarrow> 'a list" where
  "py_slice sl xs =
     (let n = length xs;
          start = (case fst sl of None \<Rightarrow> 0 | Some i \<Rightarrow> slice_bound n i);
          stop = (case snd sl of None \<Rightarrow> n | Some j \<Rightarrow> slice_bound n j)
      in take (stop - start) (drop start xs))"

definition df_iloc :: "slice option \<Rightarrow> frame \<Rightarrow> frame" where
  "df_iloc iloc df =
     (case iloc of
        None \<Rightarrow> df
      | Some sl \<Rightarrow> (py_slice sl (fst df), map (\<lambda>c. (fst c, py_slice sl (snd c))) (snd df)))"

section \<open>The data source\<close>

text \<open>
  \<^verbatim>\<open>class AliasGroup\<close> and \<^verbatim>\<open>class DataSourceEPH5\<close>, as \<^verbatim>\<open>getAliasedDF\<close> reads
  them. \<^verbatim>\<open>_vardict\<close> sends a variable name to its layout, of which \<^verbatim>\<open>'col'\<close>, the
  column of the name in the dataset \<^verbatim>\<open>CalcData/VarValues\<close>, is what fetching uses;
  the dictionary is kept in its insertion order. The dataset is the list of its rows.
  A source is taken after \<^verbatim>\<open>load()\<close>, with its file unchanged since, and the cells are
  the values after \<^verbatim>\<open>_substitute_str_enum\<close>.
\<close>

record AliasGroup =
  group_name :: string
  aliases :: "Alias list"

record source =
  vardict :: "(string \<times> nat) list"
  VarValues :: "cell list list"
  preload_data :: bool
  alias_grp :: "AliasGroup option"

definition clean_step :: "string list \<Rightarrow> string \<Rightarrow> string list \<times> string list
    \<Rightarrow> string list \<times> string list" where
  "clean_step list_existing v acc =
     (if v \<notin> set list_existing then (fst acc, snd acc @ [v])
      else if v \<notin> set (fst acc) then (fst acc @ [v], snd acc)
      else acc)"

text \<open>
  \<^verbatim>\<open>_clean_var_list\<close>: the known names without repetition, and the unknown ones,
  which are logged and returned apart.
\<close>

definition clean_var_list :: "source \<Rightarrow> string list \<Rightarrow> string list \<times> string list" where
  "clean_var_list src var_lst =
     fold (clean_step (map fst (vardict src))) var_lst ([], [])"

fun lookup_cols :: "(string \<times> nat) list \<Rightarrow> string list \<Rightarrow> py_error + nat list" where
  "lookup_cols vd [] = Inr []"
| "lookup_cols vd (v # vs) =
     (case map_of vd v of
        None \<Rightarrow> Inl (KeyError v)
      | Some c \<Rightarrow> (case lookup_cols vd vs of Inl e \<Rightarrow> Inl e | Inr cs \<Rightarrow> Inr (c # cs)))"

text \<open>\<^verbatim>\<open>_order_var_lst\<close>: the names sorted by their column, by a stable sort.\<close>

definition order_var_lst :: "source \<Rightarrow> string list \<Rightarrow> py_error + string list" where
  "order_var_lst src var_lst =
     (case lookup_cols (vardict src) var_lst of
        Inl e \<Rightarrow> Inl e
      | Inr cs \<Rightarrow> Inr (map snd (sort_key fst (zip cs var_lst))))"

text \<open>\<^verbatim>\<open>ds[:,col_lst]\<close>: one column of the dataset per index, each within every row.\<close>

fun ds_columns :: "cell list list \<Rightarrow> nat list \<Rightarrow> py_error + cell list list" where
  "ds_columns ds [] = Inr []"
| "ds_columns ds (c # cs) =
     (if list_all (\<lambda>row. c < length row) ds
      then (case ds_columns ds cs of
              Inl e \<Rightarrow> Inl e
            | Inr cols \<Rightarrow> Inr (map (\<lambda>row. row ! c) ds # cols))
      else Inl IndexError)"

text \<open>
  \<^verbatim>\<open>DataSourceEPH5.get_df\<close>. With preloading on, the method calls
  \<^verbatim>\<open>super().get_df(var_lst, loc, iloc)\<close>, where \<^verbatim>\<open>loc\<close> is no name in scope.
  The table built from the dataset has the row labels \<open>0, 1, ...\<close> of its rows.
\<close>

definition get_df :: "source \<Rightarrow> string list option \<Rightarrow> py_error + frame" where
  "get_df src var_lst =
     (if preload_data src then Inl (NameError ''loc'')
      else
        (case (case var_lst of
                 None \<Rightarrow> Inr (map fst (vardict src))
               | Some vs \<Rightarrow> order_var_lst src (fst (clean_var_list src vs))) of
           Inl e \<Rightarrow> Inl e
         | Inr var_lst_c \<Rightarrow>
            (case lookup_cols (vardict src) var_lst_c of
               Inl e \<Rightarrow> Inl e
             | Inr col_lst \<Rightarrow>
                (case ds_columns (VarValues src) col_lst of
                   Inl e \<Rightarrow> Inl e
                 | Inr cols \<Rightarrow>
                     Inr (map int [0..<length (VarValues src)], zip var_lst_c cols)))))"

section \<open>The orchestrator\<close>

text \<open>
  \<^verbatim>\<open>getAliasedDF(source, vnames, loc, iloc)\<close>, in the three parts of its body: the
  spy run on the filter, the cases without aliases, and the generic case with aliases.
\<close>

definition bind_r :: "(py_error + 'a) option \<Rightarrow> ('a \<Rightarrow> (py_error + 'b) option)
    \<Rightarrow> (py_error + 'b) option" where
  "bind_r m f = (case m of None \<Rightarrow> None | Some (Inl e) \<Rightarrow> Some (Inl e) | Some (Inr x) \<Rightarrow> f x)"

text \<open>\<^verbatim>\<open>if loc is not None: _ = loc(spy)\<close>.\<close>

definition spy_loc :: "nat \<Rightarrow> spy \<Rightarrow> prog option \<Rightarrow> (py_error + spy) option" where
  "spy_loc n s loc =
     (case loc of
        None \<Rightarrow> Some (Inr s)
      | Some f \<Rightarrow> bind_r (spy_call n s f) (\<lambda>r. Some (Inr (snd r))))"

text \<open>
  The cases without aliases. \<^verbatim>\<open>vnames or vnames_valid\<close> takes the valid names for
  \<^verbatim>\<open>None\<close> and for an empty list. With a filter, the branch reads \<^verbatim>\<open>src\<close>, which
  is no name in scope (the parameter is \<^verbatim>\<open>source\<close>).
\<close>

definition no_alias_case :: "source \<Rightarrow> string list option \<Rightarrow> prog option \<Rightarrow> slice option
    \<Rightarrow> py_error + frame" where
  "no_alias_case src vnames loc iloc =
     (let vnames_valid = map fst (vardict src);
          vnames' = (case vnames of None \<Rightarrow> vnames_valid
                     | Some vs \<Rightarrow> if vs = [] then vnames_valid else vs)
      in if loc = None
         then (case get_df src (Some vnames') of
                 Inl e \<Rightarrow> Inl e
               | Inr df \<Rightarrow> Inr (df_iloc iloc df))
         else Inl (NameError ''src''))"

text \<open>
  The generic case, after the loop that traces the requested names: \<open>s'\<close> is the spy
  as that loop left it. \<^verbatim>\<open>vnames_loc\<close> is the spy's own list \<^verbatim>\<open>_vnames_used\<close>, not a
  copy of it, so when the union is taken it holds what the list holds then;
  \<^verbatim>\<open>list(set(...))\<close> keeps one copy of each name (in an order Python does not fix,
  and \<^verbatim>\<open>get_df\<close> sorts the names again).
\<close>

definition materialize_pass :: "nat \<Rightarrow> source \<Rightarrow> spy \<Rightarrow> string list \<Rightarrow> prog option
    \<Rightarrow> slice option \<Rightarrow> (py_error + frame) option" where
  "materialize_pass n src s' vnames loc iloc =
     (let vnames_loc = (case loc of None \<Rightarrow> [] | Some f \<Rightarrow> vnames_used s');
          vnames_used' = remdups (vnames_loc @ vnames_used s')
      in bind_r (Some (get_df src (Some vnames_used'))) (\<lambda>df_used.
           let df_proxy = \<lparr>px_aliasing_map = aliasing_map s', px_df = df_used\<rparr>
           in bind_r (materialize n df_proxy vnames []) (\<lambda>series_out.
                bind_r (Some (concat_axis1 series_out)) (\<lambda>df.
                  bind_r (case loc of
                            None \<Rightarrow> Some (Inr df)
                          | Some f \<Rightarrow> bind_r (proxy_call n df_proxy f) (\<lambda>m. Some (df_loc df m)))
                    (\<lambda>df'. Some (Inr (df_iloc iloc df')))))))"

text \<open>The generic case with aliases: the names are traced, then materialized.\<close>

definition generic_case :: "nat \<Rightarrow> source \<Rightarrow> spy \<Rightarrow> string list \<Rightarrow> prog option
    \<Rightarrow> slice option \<Rightarrow> (py_error + frame) option" where
  "generic_case n src s vnames loc iloc =
     bind_r (spy_trace n s vnames) (\<lambda>s'. materialize_pass n src s' vnames loc iloc)"

definition getAliasedDF :: "nat \<Rightarrow> source \<Rightarrow> string list option \<Rightarrow> prog option
    \<Rightarrow> slice option \<Rightarrow> (py_error + frame) option" where
  "getAliasedDF n src vnames loc iloc =
     (let ag = alias_grp src;
          alias_flag = (case ag of None \<Rightarrow> False | Some g \<Rightarrow> aliases g \<noteq> []);
          aliases' = (case ag of None \<Rightarrow> [] | Some g \<Rightarrow> aliases g);
          vnames_valid = map fst (vardict src);
          s0 = spy_init aliases' vnames_valid
      in bind_r (spy_loc n s0 loc) (\<lambda>s.
           case vnames of
             None \<Rightarrow> Some (no_alias_case src vnames loc iloc)
           | Some vs \<Rightarrow>
               if \<not> alias_flag then Some (no_alias_case src vnames loc iloc)
               else generic_case n src s vs loc iloc))"

section \<open>The manager's registry of alias groups\<close>

text \<open>
  \<^verbatim>\<open>class Manager\<close> keeps dictionaries from names to objects, and the objects refer
  to one another (\<^verbatim>\<open>src.alias_grp\<close>, \<^verbatim>\<open>ag.ref_sources\<close>, \<^verbatim>\<open>ag.aliases\<close>,
  \<^verbatim>\<open>a.ref_alias_grps\<close>). Objects are numbered, and each attribute that refers to
  objects is a table from the number of its owner. A method returns the exception it
  raised, if any, with the store as the method left it.
\<close>

record manager =
  sources :: "string \<rightharpoonup> nat"
  alias_grps :: "string \<rightharpoonup> nat"
  m_aliases :: "nat list"
  src_alias_grp :: "nat \<rightharpoonup> nat"
  grp_aliases :: "nat \<Rightarrow> nat list"
  grp_ref_sources :: "nat \<Rightarrow> nat list"
  alias_ref_grps :: "nat \<Rightarrow> nat list"
  alias_obj :: "nat \<rightharpoonup> Alias"
  next_obj :: nat

definition manager_init :: manager where
  "manager_init =
     \<lparr>sources = Map.empty, alias_grps = Map.empty, m_aliases = [],
      src_alias_grp = Map.empty, grp_aliases = (\<lambda>g. []), grp_ref_sources = (\<lambda>g. []),
      alias_ref_grps = (\<lambda>a. []), alias_obj = Map.empty, next_obj = 0\<rparr>"

text \<open>
  \<^verbatim>\<open>set_alias_grp\<close>: an unknown group or an unknown source is logged and skipped.
\<close>

definition assign_src :: "nat \<Rightarrow> string \<Rightarrow> manager \<Rightarrow> manager" where
  "assign_src ag src_name m =
     (case sources m src_name of
        None \<Rightarrow> m
      | Some src \<Rightarrow>
          m\<lparr>src_alias_grp := (src_alias_grp m)(src \<mapsto> ag),
            grp_ref_sources := (grp_ref_sources m)(ag := grp_ref_sources m ag @ [src])\<rparr>)"

definition set_alias_grp :: "manager \<Rightarrow> string \<Rightarrow> string list \<Rightarrow> manager" where
  "set_alias_grp m name assigned_srcs =
     (case alias_grps m name of
        None \<Rightarrow> m
      | Some ag \<Rightarrow> fold (assign_src ag) assigned_srcs m)"

text \<open>
  \<^verbatim>\<open>del_alias_grp\<close>: for a name that is registered, the sources of the group are
  unbound, and then the loop header \<^verbatim>\<open>for a in alias_grp.aliases\<close> reads
  \<^verbatim>\<open>alias_grp\<close>, which is no name in scope (the group is \<^verbatim>\<open>ag\<close>).
\<close>

definition unbind_src :: "nat \<Rightarrow> manager \<Rightarrow> manager" where
  "unbind_src src m = m\<lparr>src_alias_grp := (src_alias_grp m)(src := None)\<rparr>"

definition del_alias_grp :: "manager \<Rightarrow> string \<Rightarrow> py_error option \<times> manager" where
  "del_alias_grp m name =
     (case alias_grps m name of
        None \<Rightarrow> (None, m)
      | Some ag \<Rightarrow> (Some (NameError ''alias_grp''), fold unbind_src (grp_ref_sources m ag) m))"

text \<open>
  \<^verbatim>\<open>add_alias_grp\<close>: the previous group of the name is deleted, then a new
  \<^verbatim>\<open>AliasGroup\<close> is stored under the name and assigned to the sources.
\<close>

definition add_alias_grp :: "manager \<Rightarrow> string \<Rightarrow> string list \<Rightarrow> py_error option \<times> manager" where
  "add_alias_grp m name assigned_srcs =
     (case del_alias_grp m name of
        (Some e, m') \<Rightarrow> (Some e, m')
      | (None, m') \<Rightarrow>
          (let ag = next_obj m';
               m'' = m'\<lparr>alias_grps := (alias_grps m')(name \<mapsto> ag),
                        grp_aliases := (grp_aliases m')(ag := []),
                        grp_ref_sources := (grp_ref_sources m')(ag := []),
                        next_obj := Suc ag\<rparr>
           in (None, set_alias_grp m'' name assigned_srcs)))"

text \<open>
  \<^verbatim>\<open>add_alias\<close>: the new alias is appended to \<^verbatim>\<open>_aliases\<close> and to the aliases of
  each named group that exists.
\<close>

definition assign_grp :: "nat \<Rightarrow> string \<Rightarrow> manager \<Rightarrow> manager" where
  "assign_grp a ag_name m =
     (case alias_grps m ag_name of
        None \<Rightarrow> m
      | Some ag \<Rightarrow>
          m\<lparr>grp_aliases := (grp_aliases m)(ag := grp_aliases m ag @ [a]),
            alias_ref_grps := (alias_ref_grps m)(a := alias_ref_grps m a @ [ag])\<rparr>)"

definition add_alias :: "manager \<Rightarrow> Alias \<Rightarrow> string list \<Rightarrow> manager" where
  "add_alias m al assigned_alias_grps =
     (let a = next_obj m;
          m' = m\<lparr>m_aliases := m_aliases m @ [a],
                  alias_obj := (alias_obj m)(a \<mapsto> al),
                  alias_ref_grps := (alias_ref_grps m)(a := []),
                  next_obj := Suc a\<rparr>
      in fold (assign_grp a) assigned_alias_grps m')"

text \<open>The aliases of the group registered under a name, in the order of the group.\<close>

definition active_aliases :: "manager \<Rightarrow> string \<Rightarrow> Alias list option" where
  "active_aliases m name =
     (case alias_grps m name of
        None \<Rightarrow> None
      | Some ag \<Rightarrow> Some (List.map_filter (alias_obj m) (grp_aliases m ag)))"

section \<open>Notions used by the properties\<close>

text \<open>The aliases \<^verbatim>\<open>getAliasedDF\<close> gives to the spy of a source.\<close>

definition src_aliases :: "source \<Rightarrow> Alias list" where
  "src_aliases src = (case alias_grp src of None \<Rightarrow> [] | Some g \<Rightarrow> aliases g)"

text \<open>
  What matching the aliases against a key gives: the entry the spy is to record for
  the key, \<open>None\<close> when no alias matches.
\<close>

definition resolution :: "Alias list \<Rightarrow> string \<Rightarrow> aliasing" where
  "resolution als key = map_option (\<lambda>(a, g). (alias_fct a, g)) (find_alias als key)"

text \<open>A later state of the same spy: nothing recorded is lost or changed.\<close>

definition spy_ext :: "spy \<Rightarrow> spy \<Rightarrow> bool" where
  "spy_ext s s' \<longleftrightarrow>
     spy_aliases s' = spy_aliases s \<and> vnames_valid s' = vnames_valid s \<and>
     N_call s \<le> N_call s' \<and> aliasing_map s \<subseteq>\<^sub>m aliasing_map s' \<and>
     set (vnames_used s) \<subseteq> set (vnames_used s')"

text \<open>
  The invariant of the spy: every entry of the map is the resolution of its key, the
  names used are the keys recorded as final, and they are valid names.
\<close>

definition spy_ok :: "spy \<Rightarrow> bool" where
  "spy_ok s \<longleftrightarrow>
     (\<forall>key e. aliasing_map s key = Some e \<longrightarrow> e = resolution (spy_aliases s) key) \<and>
     set (vnames_used s) = {key. aliasing_map s key = Some None} \<and>
     set (vnames_used s) \<subseteq> set (vnames_valid s)"


text \<open>
  The end of \<^verbatim>\<open>getAliasedDF\<close> on the Series of the requested names and the Series
  the filter gave on the proxy, if there is a filter: concatenation, \<^verbatim>\<open>df.loc\<close>,
  \<^verbatim>\<open>df.iloc\<close>.
\<close>

definition assemble :: "series list \<Rightarrow> out option \<Rightarrow> slice option \<Rightarrow> py_error + frame" where
  "assemble series_out msk iloc =
     (case concat_axis1 series_out of
        Inl e \<Rightarrow> Inl e
      | Inr df \<Rightarrow>
         (case msk of
            None \<Rightarrow> Inr (df_iloc iloc df)
          | Some m \<Rightarrow> (case df_loc df m of Inl e \<Rightarrow> Inl e | Inr df' \<Rightarrow> Inr (df_iloc iloc df'))))"



subsection \<open>Callables whose requests do not depend on the data\<close>

text \<open>
  The names a callable asks for when every answer is the spy's dummy, and the callables
  that ask for these same names whatever the answers are. The trace pass runs a callable
  on dummies and the materialize pass on columns; for such a callable both ask alike.
\<close>

primrec skel :: "prog \<Rightarrow> string list" where
  "skel (Ret v) = []"
| "skel (Get key k) = key # skel (k df_dum)"

primrec uniform :: "prog \<Rightarrow> bool" where
  "uniform (Ret v) = True"
| "uniform (Get key k) = (\<forall>v. uniform (k v) \<and> skel (k v) = skel (k df_dum))"





subsection \<open>The materialize pass in the words of the specification\<close>

text \<open>
  Section 4.3 of the specification: a name is materialized only if the trace pass
  resolved it (\<open>D\<close> holds the names it resolved); a terminal name is its column of the
  fetched table; any other name is the transform of its resolution, that is of the first
  alias that matches the name, called on the groups of that match, with a binding
  context that materializes each name the transform asks for. Section 4.4: the terminal
  names are fetched, the requested names are materialized in their order and
  concatenated, then the filter is run on the same binding context and applied, then
  the slice.
\<close>

fun spec_getitem :: "nat \<Rightarrow> Alias list \<Rightarrow> string set \<Rightarrow> frame \<Rightarrow> string
    \<Rightarrow> (py_error + out) option"
  and spec_call :: "nat \<Rightarrow> Alias list \<Rightarrow> string set \<Rightarrow> frame \<Rightarrow> prog
    \<Rightarrow> (py_error + out) option" where
  "spec_getitem 0 als D table key = None"
| "spec_getitem (Suc n) als D table key =
     (if key \<in> D
      then (case find_alias als key of
              None \<Rightarrow> Some (df_getitem table key)
            | Some (a, grps) \<Rightarrow> spec_call n als D table (alias_fct a grps))
      else Some (Inl (KeyError key)))"
| "spec_call 0 als D table p = None"
| "spec_call (Suc n) als D table (Ret v) = Some (Inr v)"
| "spec_call (Suc n) als D table (Get key k) =
     (case spec_getitem n als D table key of
        None \<Rightarrow> None
      | Some (Inl e) \<Rightarrow> Some (Inl e)
      | Some (Inr v) \<Rightarrow> spec_call n als D table (k v))"

fun spec_materialize :: "nat \<Rightarrow> Alias list \<Rightarrow> string set \<Rightarrow> frame \<Rightarrow> string list
    \<Rightarrow> series list \<Rightarrow> (py_error + series list) option" where
  "spec_materialize n als D table [] acc = Some (Inr acc)"
| "spec_materialize n als D table (v # vs) acc =
     (case spec_getitem n als D table v of
        None \<Rightarrow> None
      | Some (Inl e) \<Rightarrow> Some (Inl e)
      | Some (Inr x) \<Rightarrow> spec_materialize n als D table vs (acc @ collect v x))"

definition spec_materialize_pass :: "nat \<Rightarrow> source \<Rightarrow> Alias list \<Rightarrow> string set
    \<Rightarrow> string list \<Rightarrow> string list \<Rightarrow> prog option \<Rightarrow> slice option
    \<Rightarrow> (py_error + frame) option" where
  "spec_materialize_pass n src als D terminal vnames loc iloc =
     bind_r (Some (get_df src (Some (remdups terminal)))) (\<lambda>table.
       bind_r (spec_materialize n als D table vnames []) (\<lambda>cols.
         bind_r (Some (concat_axis1 cols)) (\<lambda>df.
           bind_r (case loc of
                     None \<Rightarrow> Some (Inr df)
                   | Some f \<Rightarrow> bind_r (spec_call n als D table f) (\<lambda>m. Some (df_loc df m)))
             (\<lambda>df'. Some (Inr (df_iloc iloc df'))))))"

subsection \<open>The names a run of the spy comes to ask for\<close>

text \<open>
  \<open>spy_asks n s p m key t\<close>: the spy, running the callable \<open>p\<close> from the state \<open>s\<close> with
  the bound \<open>n\<close>, comes to the call \<^verbatim>\<open>spy[key]\<close>, made in the state \<open>t\<close> with the
  bound \<open>m\<close>, no call before it having raised: the call is the next one of \<open>p\<close>, or it
  is reached inside the alias function of the next one, or after the next one returned.
\<close>

inductive spy_asks :: "nat \<Rightarrow> spy \<Rightarrow> prog \<Rightarrow> nat \<Rightarrow> string \<Rightarrow> spy \<Rightarrow> bool" where
  here: "spy_asks (Suc n) s (Get key k) n key s"
| inside: "aliasing_map s key0 = None \<Longrightarrow> N_call s < 1000 \<Longrightarrow>
     find_alias (spy_aliases s) key0 = Some (a, grps) \<Longrightarrow>
     spy_asks n (s\<lparr>N_call := N_call s + 1,
                   aliasing_map := (aliasing_map s)(key0 \<mapsto> Some (alias_fct a, grps))\<rparr>)
       (alias_fct a grps) m key t \<Longrightarrow>
     spy_asks (Suc (Suc n)) s (Get key0 k) m key t"
| after: "spy_getitem n s key0 = Some (Inr (v, s')) \<Longrightarrow> spy_asks n s' (k v) m key t \<Longrightarrow>
     spy_asks (Suc n) s (Get key0 k) m key t"

text \<open>The exception of the spy asked, in the state \<open>t\<close>, for a key it cannot resolve.\<close>

definition unknown_error :: "spy \<Rightarrow> string \<Rightarrow> py_error" where
  "unknown_error t key =
     (if 1000 \<le> N_call t then ValueError (infinite_loop_msg key)
      else KeyError (not_valid_msg key))"

subsection \<open>Example aliases\<close>

text \<open>An alias function that asks for one name and returns what it gets.\<close>

definition lookup1 :: "string \<Rightarrow> groups \<Rightarrow> prog" where
  "lookup1 key grps = Get key Ret"

text \<open>Two overlapping patterns, \<^verbatim>\<open>T(.*)\<close> and \<^verbatim>\<open>T1\<close>, and the pattern \<^verbatim>\<open>A\<close>.\<close>

definition alias_T_any :: Alias where
  "alias_T_any = \<lparr>regex = Cat (Chr CHR ''T'') (Grp 0 (Star Dot)), alias_fct = lookup1 ''X''\<rparr>"

definition alias_T1 :: Alias where
  "alias_T1 = \<lparr>regex = Cat (Chr CHR ''T'') (Chr CHR ''1''), alias_fct = lookup1 ''Y''\<rparr>"

definition alias_A_sub :: Alias where
  "alias_A_sub = \<lparr>regex = Chr CHR ''A'', alias_fct = lookup1 ''X''\<rparr>"

subsection \<open>Example sources, filters and registries\<close>

text \<open>
  A source of two integer variables and three rows, without an alias group and with
  groups whose aliases refer to themselves; the filters \<^verbatim>\<open>lambda df: df['X'] > 1\<close> and
  \<^verbatim>\<open>lambda df: df['Q'] > 1\<close>, of which the second names no variable of the source; a
  manager with one source, on which a group is registered with the source and an alias.
  An operation on the cells of a Series keeps its name and its row labels.
\<close>

definition manager_one_source :: manager where
  "manager_one_source = manager_init\<lparr>sources := [''s'' \<mapsto> 0], next_obj := 1\<rparr>"

definition registered_once :: manager where
  "registered_once =
     add_alias (snd (add_alias_grp manager_one_source ''g'' [''s''])) alias_A_sub [''g'']"

definition map_rows :: "(cell \<Rightarrow> cell) \<Rightarrow> series \<Rightarrow> series" where
  "map_rows f c = (fst c, map (\<lambda>r. (fst r, f (snd r))) (snd c))"

definition map_out :: "(cell \<Rightarrow> cell) \<Rightarrow> out \<Rightarrow> out" where
  "map_out f v =
     (case v of
        Single c \<Rightarrow> Single (map_rows f c)
      | Multi cs \<Rightarrow> Multi (map (map_rows f) cs))"

definition cell_gt :: "int \<Rightarrow> cell \<Rightarrow> cell" where
  "cell_gt k c = (case c of Int64 w \<Rightarrow> Flag (k < sint w) | _ \<Rightarrow> Flag False)"

definition filter_X_gt1 :: prog where
  "filter_X_gt1 = Get ''X'' (\<lambda>x. Ret (map_out (cell_gt 1) x))"

definition filter_Q_gt1 :: prog where
  "filter_Q_gt1 = Get ''Q'' (\<lambda>x. Ret (map_out (cell_gt 1) x))"

definition src_plain :: source where
  "src_plain =
     \<lparr>vardict = [(''X'', 0), (''Y'', 1)],
      VarValues = [[Int64 1, Int64 10], [Int64 2, Int64 20], [Int64 3, Int64 30]],
      preload_data = False, alias_grp = None\<rparr>"

definition alias_self :: Alias where
  "alias_self = \<lparr>regex = Chr CHR ''A'', alias_fct = lookup1 ''A''\<rparr>"

definition alias_A_to_B :: Alias where
  "alias_A_to_B = \<lparr>regex = Chr CHR ''A'', alias_fct = lookup1 ''B''\<rparr>"

definition alias_B_to_A :: Alias where
  "alias_B_to_A = \<lparr>regex = Chr CHR ''B'', alias_fct = lookup1 ''A''\<rparr>"

definition src_self :: source where
  "src_self = src_plain\<lparr>alias_grp := Some \<lparr>group_name = ''g'', aliases = [alias_self]\<rparr>\<rparr>"

definition src_cycle :: source where
  "src_cycle = src_plain\<lparr>alias_grp :=
     Some \<lparr>group_name = ''g'', aliases = [alias_A_to_B, alias_B_to_A]\<rparr>\<rparr>"

subsection \<open>Example aliases with arithmetic, a list-valued alias and a filter on an alias\<close>

text \<open>
  On \<^verbatim>\<open>int64\<close> columns, \<^verbatim>\<open>B\<close> is \<^verbatim>\<open>df['A'] * 2\<close> and \<^verbatim>\<open>A\<close> is \<^verbatim>\<open>df['X'] + 1\<close>, in
  the arithmetic of \<^verbatim>\<open>int64\<close>, which wraps around; \<^verbatim>\<open>C\<close> stands for \<^verbatim>\<open>Y\<close>; \<^verbatim>\<open>P\<close>
  returns the list \<^verbatim>\<open>[df['X'], df['Y']]\<close>; \<^verbatim>\<open>R\<close> is \<^verbatim>\<open>X\<close> with its first row moved
  to the end, the rows keeping their labels; the filter is \<^verbatim>\<open>lambda df: df['C'] > 10\<close>.
  \<open>traced_BA\<close> is the spy after tracing \<^verbatim>\<open>B\<close>, and \<open>rank_ex\<close> ranks the keys of
  these aliases. The columns of the examples are \<^verbatim>\<open>int64\<close>; what the two arithmetic
  functions give on a cell that is no \<^verbatim>\<open>int64\<close> is put to \<open>NaN\<close> and no example looks
  at it. \<open>src_wrap\<close> is a source on which the arithmetic of \<^verbatim>\<open>B\<close> wraps around.
\<close>

definition int64_add :: "64 word \<Rightarrow> cell \<Rightarrow> cell" where
  "int64_add k c = (case c of Int64 w \<Rightarrow> Int64 (w + k) | _ \<Rightarrow> NaN)"

definition int64_mul :: "64 word \<Rightarrow> cell \<Rightarrow> cell" where
  "int64_mul k c = (case c of Int64 w \<Rightarrow> Int64 (w * k) | _ \<Rightarrow> NaN)"

definition alias_B :: Alias where
  "alias_B = \<lparr>regex = Chr CHR ''B'',
              alias_fct = (\<lambda>grps. Get ''A'' (\<lambda>a. Ret (map_out (int64_mul 2) a)))\<rparr>"

definition alias_A :: Alias where
  "alias_A = \<lparr>regex = Chr CHR ''A'',
              alias_fct = (\<lambda>grps. Get ''X'' (\<lambda>x. Ret (map_out (int64_add 1) x)))\<rparr>"

definition traced_BA :: "string list \<Rightarrow> spy" where
  "traced_BA valid =
     \<lparr>spy_aliases = [alias_B, alias_A],
      aliasing_map = [''B'' \<mapsto> Some (alias_fct alias_B, []), ''A'' \<mapsto> Some (alias_fct alias_A, []),
                      ''X'' \<mapsto> None],
      vnames_used = [''X''], vnames_valid = valid, N_call = 3\<rparr>"

definition src_BA :: source where
  "src_BA = src_plain\<lparr>alias_grp := Some \<lparr>group_name = ''g'', aliases = [alias_B, alias_A]\<rparr>\<rparr>"

definition src_wrap :: source where
  "src_wrap = src_BA\<lparr>VarValues := [[Int64 0x7FFFFFFFFFFFFFFF, Int64 10], [Int64 (- 1), Int64 20]]\<rparr>"













section \<open>Properties of the trace pass\<close>

lemma spy_ext_refl: "spy_ext s s"
  by (simp add: spy_ext_def)

lemma spy_ext_trans: "spy_ext s s' \<Longrightarrow> spy_ext s' s'' \<Longrightarrow> spy_ext s s''"
  unfolding spy_ext_def by (auto intro: map_le_trans)

lemma spy_ext_step:
  "(spy_getitem n s key = Some (Inr (v, s')) \<longrightarrow>
      spy_ext s s' \<and> N_call s < N_call s' \<and> aliasing_map s' key \<noteq> None)
   \<and> (spy_call n s p = Some (Inr (v, s')) \<longrightarrow> spy_ext s s')"
proof (induction n arbitrary: s key p v s')
  case 0
  then show ?case by simp
next
  case (Suc n)
  have call: "spy_call (Suc n) s p = Some (Inr (v, s')) \<longrightarrow> spy_ext s s'"
  proof (cases p)
    case (Ret x)
    then show ?thesis by (auto simp: spy_ext_refl)
  next
    case (Get k c)
    show ?thesis
    proof
      assume h: "spy_call (Suc n) s p = Some (Inr (v, s'))"
      with Get obtain w t where g: "spy_getitem n s k = Some (Inr (w, t))"
          and c: "spy_call n t (c w) = Some (Inr (v, s'))"
        by (auto split: option.splits sum.splits)
      from Suc.IH[where s=s and key=k and v=w and s'=t] g have "spy_ext s t" by simp
      moreover from Suc.IH[where s=t and p="c w" and v=v and s'=s'] c have "spy_ext t s'" by simp
      ultimately show "spy_ext s s'" by (rule spy_ext_trans)
    qed
  qed
  have get: "spy_getitem (Suc n) s key = Some (Inr (v, s')) \<longrightarrow>
      spy_ext s s' \<and> N_call s < N_call s' \<and> aliasing_map s' key \<noteq> None"
  proof
    assume h: "spy_getitem (Suc n) s key = Some (Inr (v, s'))"
    then have N: "N_call s < 1000" by (auto simp: Let_def split: if_splits)
    show "spy_ext s s' \<and> N_call s < N_call s' \<and> aliasing_map s' key \<noteq> None"
    proof (cases "aliasing_map s key")
      case (Some e)
      with h N have "s' = s\<lparr>N_call := N_call s + 1\<rparr>" by (auto simp: Let_def)
      with Some show ?thesis by (simp add: spy_ext_def)
    next
      case None
      show ?thesis
      proof (cases "find_alias (spy_aliases s) key")
        case fn: None
        with h N None have "s' = s\<lparr>N_call := N_call s + 1,
            aliasing_map := (aliasing_map s)(key \<mapsto> None),
            vnames_used := vnames_used s @ [key]\<rparr>"
          by (auto simp: Let_def split: if_splits)
        with None show ?thesis by (auto simp: spy_ext_def map_le_def)
      next
        case (Some ag)
        obtain a g where ag: "ag = (a, g)" by (cases ag)
        let ?t = "s\<lparr>N_call := N_call s + 1,
            aliasing_map := (aliasing_map s)(key \<mapsto> Some (alias_fct a, g))\<rparr>"
        from h N None Some ag have c: "spy_call n ?t (alias_fct a g) = Some (Inr (v, s'))"
          by (simp add: Let_def)
        from Suc.IH[where s="?t" and p="alias_fct a g" and v=v and s'=s'] c have e: "spy_ext ?t s'" by simp
        have "spy_ext s ?t" using None by (auto simp: spy_ext_def map_le_def)
        from this e have "spy_ext s s'" by (rule spy_ext_trans)
        moreover from e have "N_call s < N_call s'" by (simp add: spy_ext_def)
        moreover from e have "aliasing_map s' key \<noteq> None"
          by (auto simp: spy_ext_def map_le_def dom_def split: if_splits)
        ultimately show ?thesis by simp
      qed
    qed
  qed
  from call get show ?case by simp
qed


lemma spy_ok_step:
  "(spy_getitem n s key = Some (Inr (v, s')) \<longrightarrow> spy_ok s \<longrightarrow> spy_ok s')
   \<and> (spy_call n s p = Some (Inr (v, s')) \<longrightarrow> spy_ok s \<longrightarrow> spy_ok s')"
proof (induction n arbitrary: s key p v s')
  case 0
  then show ?case by simp
next
  case (Suc n)
  have call: "spy_call (Suc n) s p = Some (Inr (v, s')) \<longrightarrow> spy_ok s \<longrightarrow> spy_ok s'"
  proof (cases p)
    case (Ret x)
    then show ?thesis by auto
  next
    case (Get k c)
    show ?thesis
    proof (intro impI)
      assume h: "spy_call (Suc n) s p = Some (Inr (v, s'))" and ok: "spy_ok s"
      with Get obtain w t where g: "spy_getitem n s k = Some (Inr (w, t))"
          and c: "spy_call n t (c w) = Some (Inr (v, s'))"
        by (auto split: option.splits sum.splits)
      from Suc.IH[where s=s and key=k and v=w and s'=t] g ok have "spy_ok t" by simp
      with Suc.IH[where s=t and p="c w" and v=v and s'=s'] c show "spy_ok s'" by simp
    qed
  qed
  have get: "spy_getitem (Suc n) s key = Some (Inr (v, s')) \<longrightarrow> spy_ok s \<longrightarrow> spy_ok s'"
  proof (intro impI)
    assume h: "spy_getitem (Suc n) s key = Some (Inr (v, s'))" and ok: "spy_ok s"
    then have N: "N_call s < 1000" by (auto simp: Let_def split: if_splits)
    show "spy_ok s'"
    proof (cases "aliasing_map s key")
      case (Some e)
      with h N have "s' = s\<lparr>N_call := N_call s + 1\<rparr>" by (auto simp: Let_def)
      with ok show ?thesis by (auto simp: spy_ok_def)
    next
      case None
      show ?thesis
      proof (cases "find_alias (spy_aliases s) key")
        case fn: None
        with h N None have s': "s' = s\<lparr>N_call := N_call s + 1,
            aliasing_map := (aliasing_map s)(key \<mapsto> None),
            vnames_used := vnames_used s @ [key]\<rparr>" and valid: "key \<in> set (vnames_valid s)"
          by (auto simp: Let_def split: if_splits)
        from ok fn valid show ?thesis unfolding s' spy_ok_def resolution_def by auto
      next
        case (Some ag)
        obtain a g where ag: "ag = (a, g)" by (cases ag)
        let ?t = "s\<lparr>N_call := N_call s + 1,
            aliasing_map := (aliasing_map s)(key \<mapsto> Some (alias_fct a, g))\<rparr>"
        from h N None Some ag have c: "spy_call n ?t (alias_fct a g) = Some (Inr (v, s'))"
          by (simp add: Let_def)
        from ok None have nk: "key \<notin> set (vnames_used s)" by (auto simp: spy_ok_def)
        from ok Some ag nk have "spy_ok ?t" unfolding spy_ok_def resolution_def by auto
        with Suc.IH[where s="?t" and p="alias_fct a g" and v=v and s'=s'] c show ?thesis by simp
      qed
    qed
  qed
  from call get show ?case by simp
qed

lemma spy_getitem_limit:
  "1000 \<le> N_call s \<Longrightarrow>
   spy_getitem (Suc n) s key = Some (Inl (ValueError (infinite_loop_msg key)))"
  by (simp add: Let_def)

lemma spy_total:
  "(2 * (1000 - N_call s) + 1 \<le> n \<longrightarrow> spy_getitem n s key \<noteq> None)
   \<and> (2 * (1000 - N_call s) + 2 \<le> n \<longrightarrow> spy_call n s p \<noteq> None)"
proof (induction n arbitrary: s key p)
  case 0
  then show ?case by simp
next
  case (Suc n)
  have get: "2 * (1000 - N_call s) + 1 \<le> Suc n \<longrightarrow> spy_getitem (Suc n) s key \<noteq> None"
  proof
    assume b: "2 * (1000 - N_call s) + 1 \<le> Suc n"
    show "spy_getitem (Suc n) s key \<noteq> None"
    proof (cases "1000 \<le> N_call s")
      case True
      then show ?thesis by (simp add: spy_getitem_limit)
    next
      case False
      show ?thesis
      proof (cases "aliasing_map s key")
        case (Some e)
        with False show ?thesis by (simp add: Let_def)
      next
        case None
        show ?thesis
        proof (cases "find_alias (spy_aliases s) key")
          case fn: None
          with None False show ?thesis by (simp add: Let_def)
        next
          case (Some ag)
          obtain a g where ag: "ag = (a, g)" by (cases ag)
          let ?t = "s\<lparr>N_call := N_call s + 1,
            aliasing_map := (aliasing_map s)(key \<mapsto> Some (alias_fct a, g))\<rparr>"
          from b False have "2 * (1000 - N_call ?t) + 2 \<le> n" by simp
          with Suc.IH[where s="?t" and p="alias_fct a g"]
          have "spy_call n ?t (alias_fct a g) \<noteq> None" by simp
          with None Some ag False show ?thesis by (simp add: Let_def)
        qed
      qed
    qed
  qed
  have call: "2 * (1000 - N_call s) + 2 \<le> Suc n \<longrightarrow> spy_call (Suc n) s p \<noteq> None"
  proof
    assume b: "2 * (1000 - N_call s) + 2 \<le> Suc n"
    show "spy_call (Suc n) s p \<noteq> None"
    proof (cases p)
      case (Ret x)
      then show ?thesis by simp
    next
      case (Get k c)
      from b have "2 * (1000 - N_call s) + 1 \<le> n" by simp
      with Suc.IH[where s=s and key=k] obtain r where r: "spy_getitem n s k = Some r" by auto
      show ?thesis
      proof (cases r)
        case (Inl e)
        with r Get show ?thesis by simp
      next
        case (Inr vt)
        obtain w t where vt: "vt = (w, t)" by (cases vt)
        with r Inr have g: "spy_getitem n s k = Some (Inr (w, t))" by simp
        with spy_ext_step[of n s k w t] have lt: "N_call s < N_call t" by simp
        from g obtain m where m: "n = Suc m" by (cases n) auto
        from g m have "N_call s < 1000" by (auto simp: Let_def split: if_splits)
        with b lt have "2 * (1000 - N_call t) + 2 \<le> n" by simp
        with Suc.IH[where s=t and p="c w"] have "spy_call n t (c w) \<noteq> None" by simp
        with g Get show ?thesis by simp
      qed
    qed
  qed
  from get call show ?case by simp
qed

section \<open>Alias matching\<close>

lemma find_alias_first:
  "list_all (\<lambda>b. re_search (regex b) key = None) pre \<Longrightarrow> re_search (regex a) key = Some grps
   \<Longrightarrow> find_alias (pre @ a # post) key = Some (a, grps)"
  by (induction pre) auto

lemma spy_getitem_alias:
  "find_alias (spy_aliases s) key = Some (a, grps) \<Longrightarrow> aliasing_map s key = None \<Longrightarrow> N_call s < 1000 \<Longrightarrow>
   spy_getitem (Suc n) s key =
     spy_call n (s\<lparr>N_call := N_call s + 1,
                   aliasing_map := (aliasing_map s)(key \<mapsto> Some (alias_fct a, grps))\<rparr>)
       (alias_fct a grps)"
  by (simp add: Let_def)

lemma search_from_None:
  "search_from r p s = None \<longleftrightarrow> (\<forall>i\<le>length s. match_at r (p + i) (drop i s) = None)"
proof (induction s arbitrary: p)
  case Nil
  then show ?case by simp
next
  case (Cons x xs)
  show ?case
  proof (cases "match_at r p (x # xs)")
    case None
    have "(\<forall>i\<le>length (x # xs). match_at r (p + i) (drop i (x # xs)) = None)
        \<longleftrightarrow> (\<forall>i\<le>length xs. match_at r (Suc p + i) (drop i xs) = None)"
    proof
      assume h: "\<forall>i\<le>length (x # xs). match_at r (p + i) (drop i (x # xs)) = None"
      show "\<forall>i\<le>length xs. match_at r (Suc p + i) (drop i xs) = None"
      proof (intro allI impI)
        fix i assume "i \<le> length xs"
        with h have "match_at r (p + Suc i) (drop (Suc i) (x # xs)) = None" by (metis Suc_le_mono length_Cons)
        then show "match_at r (Suc p + i) (drop i xs) = None" by simp
      qed
    next
      assume h: "\<forall>i\<le>length xs. match_at r (Suc p + i) (drop i xs) = None"
      show "\<forall>i\<le>length (x # xs). match_at r (p + i) (drop i (x # xs)) = None"
      proof (intro allI impI)
        fix i assume i: "i \<le> length (x # xs)"
        show "match_at r (p + i) (drop i (x # xs)) = None"
        proof (cases i)
          case 0
          with None show ?thesis by simp
        next
          case (Suc j)
          with i h have "match_at r (Suc p + j) (drop j xs) = None" by simp
          with Suc show ?thesis by simp
        qed
      qed
    qed
    with None Cons.IH[of "Suc p"] show ?thesis by simp
  next
    case (Some g)
    then have "\<not> (\<forall>i\<le>length (x # xs). match_at r (p + i) (drop i (x # xs)) = None)"
      by (metis add.right_neutral drop0 le0 option.distinct(1))
    with Some show ?thesis by simp
  qed
qed

lemma re_search_None:
  "re_search r key = None \<longleftrightarrow> (\<forall>i\<le>length key. match_at r i (drop i key) = None)"
  using search_from_None[of r 0 key] by (simp add: re_search_def)

lemma find_alias_None:
  "find_alias als key = None \<longleftrightarrow> list_all (\<lambda>b. re_search (regex b) key = None) als"
  by (induction als) (auto split: option.splits)

text \<open>
  C9. When several aliases of the group match a requested name, the one that comes
  first in the group is used: the aliases before it do not match, the ones after it are
  not looked at, and the spy records this alias's function with the groups of its match
  and runs it.
\<close>

theorem first_match_wins:
  assumes "spy_aliases s = pre @ a # post"
    and "list_all (\<lambda>b. re_search (regex b) key = None) pre"
    and "re_search (regex a) key = Some grps"
    and "aliasing_map s key = None" and "N_call s < 1000"
  shows "find_alias (spy_aliases s) key = Some (a, grps) \<and>
         spy_getitem (Suc n) s key =
           spy_call n (s\<lparr>N_call := N_call s + 1,
                         aliasing_map := (aliasing_map s)(key \<mapsto> Some (alias_fct a, grps))\<rparr>)
             (alias_fct a grps)"
proof -
  from assms(1-3) have f: "find_alias (spy_aliases s) key = Some (a, grps)"
    by (simp add: find_alias_first)
  with assms(4,5) show ?thesis by (simp add: spy_getitem_alias del: spy_getitem.simps)
qed

lemma re_T_any: "re_search (regex alias_T_any) ''T1'' = Some [Some ''1'']"
  by (simp add: alias_T_any_def re_search_def match_at_def)

lemma re_T1: "re_search (regex alias_T1) ''T1'' = Some []"
  by (simp add: alias_T1_def re_search_def match_at_def)

lemma ex_T_eval:
  "(case spy_getitem 3 (spy_init [alias_T_any, alias_T1] [''X'', ''Y'']) ''T1'' of
      Some (Inr (v, s')) \<Rightarrow> vnames_used s' = [''X''] | _ \<Rightarrow> False)"
  by code_simp

lemma ex_T_hyps:
  "spy_aliases (spy_init [alias_T_any, alias_T1] [''X'', ''Y'']) = [] @ alias_T_any # [alias_T1]"
  "list_all (\<lambda>b. re_search (regex b) ''T1'' = None) []"
  "aliasing_map (spy_init [alias_T_any, alias_T1] [''X'', ''Y'']) ''T1'' = None"
  "N_call (spy_init [alias_T_any, alias_T1] [''X'', ''Y'']) < 1000"
  by (simp_all add: spy_init_def)

theorem first_match_wins_witness:
  "re_search (regex alias_T_any) ''T1'' = Some [Some ''1''] \<and>
   re_search (regex alias_T1) ''T1'' = Some [] \<and>
   find_alias (spy_aliases (spy_init [alias_T_any, alias_T1] [''X'', ''Y''])) ''T1''
     = Some (alias_T_any, [Some ''1'']) \<and>
   (case spy_getitem 3 (spy_init [alias_T_any, alias_T1] [''X'', ''Y'']) ''T1'' of
      Some (Inr (v, s')) \<Rightarrow> vnames_used s' = [''X''] | _ \<Rightarrow> False)"
  using first_match_wins[OF ex_T_hyps(1,2) re_T_any ex_T_hyps(3,4), of 2] re_T_any re_T1 ex_T_eval
  by blast


text \<open>
  C10. An alias pattern is looked for anywhere in the name: if the pattern of an alias
  of the group matches at some position of a key, the key is resolved through an alias
  (the first one of the group that matches), whether or not the key is a valid name of
  the source.
\<close>

theorem search_is_unanchored:
  assumes "a \<in> set (spy_aliases s)" and "i \<le> length key"
    and "match_at (regex a) i (drop i key) \<noteq> None"
    and "aliasing_map s key = None" and "N_call s < 1000"
  shows "re_search (regex a) key \<noteq> None \<and>
         (\<exists>b grps. find_alias (spy_aliases s) key = Some (b, grps) \<and>
            spy_getitem (Suc n) s key =
              spy_call n (s\<lparr>N_call := N_call s + 1,
                  aliasing_map := (aliasing_map s)(key \<mapsto> Some (alias_fct b, grps))\<rparr>)
                (alias_fct b grps))"
proof -
  from assms(2,3) have r: "re_search (regex a) key \<noteq> None"
    by (auto simp: re_search_None)
  with assms(1) have "find_alias (spy_aliases s) key \<noteq> None"
    by (auto simp: find_alias_None list_all_iff)
  then obtain b grps where f: "find_alias (spy_aliases s) key = Some (b, grps)" by auto
  from spy_getitem_alias[OF f assms(4,5)] f r show ?thesis by blast
qed

lemma ex_A_sub_hyps:
  "alias_A_sub \<in> set (spy_aliases (spy_init [alias_A_sub] [''BAD'', ''X'']))"
  "1 \<le> length ''BAD''"
  "aliasing_map (spy_init [alias_A_sub] [''BAD'', ''X'']) ''BAD'' = None"
  "N_call (spy_init [alias_A_sub] [''BAD'', ''X'']) < 1000"
  by (simp_all add: spy_init_def)

lemma ex_A_sub_match: "match_at (regex alias_A_sub) 1 (drop 1 ''BAD'') \<noteq> None"
  by code_simp

lemma ex_A_sub_eval:
  "match_at (regex alias_A_sub) 0 ''BAD'' = None \<and>
   (case spy_getitem 3 (spy_init [alias_A_sub] [''BAD'', ''X'']) ''BAD'' of
      Some (Inr (v, s')) \<Rightarrow> vnames_used s' = [''X''] \<and> (case aliasing_map s' ''BAD'' of Some (Some e) \<Rightarrow> True | _ \<Rightarrow> False)
    | _ \<Rightarrow> False)"
  by code_simp

theorem search_is_unanchored_witness:
  "match_at (regex alias_A_sub) 1 (drop 1 ''BAD'') \<noteq> None \<and>
   re_search (regex alias_A_sub) ''BAD'' \<noteq> None \<and>
   (\<exists>b grps. find_alias (spy_aliases (spy_init [alias_A_sub] [''BAD'', ''X''])) ''BAD'' = Some (b, grps) \<and>
      spy_getitem (Suc 2) (spy_init [alias_A_sub] [''BAD'', ''X'']) ''BAD'' =
        spy_call 2 ((spy_init [alias_A_sub] [''BAD'', ''X''])
            \<lparr>N_call := N_call (spy_init [alias_A_sub] [''BAD'', ''X'']) + 1,
             aliasing_map := (aliasing_map (spy_init [alias_A_sub] [''BAD'', ''X'']))
                (''BAD'' \<mapsto> Some (alias_fct b, grps))\<rparr>)
          (alias_fct b grps)) \<and>
   match_at (regex alias_A_sub) 0 ''BAD'' = None \<and>
   (case spy_getitem 3 (spy_init [alias_A_sub] [''BAD'', ''X'']) ''BAD'' of
      Some (Inr (v, s')) \<Rightarrow> vnames_used s' = [''X''] \<and> (case aliasing_map s' ''BAD'' of Some (Some e) \<Rightarrow> True | _ \<Rightarrow> False)
    | _ \<Rightarrow> False)"
  using search_is_unanchored[OF ex_A_sub_hyps(1,2) ex_A_sub_match ex_A_sub_hyps(3,4), of 2]
    ex_A_sub_match ex_A_sub_eval
  by blast

section \<open>The orchestrator\<close>

lemma bind_r_simps:
  "bind_r None f = None"
  "bind_r (Some (Inl e)) f = Some (Inl e)"
  "bind_r (Some (Inr x)) f = f x"
  by (simp_all add: bind_r_def)

lemma no_alias_flag:
  "vnames = None \<or> alias_grp src = None \<or> (\<exists>g. alias_grp src = Some g \<and> aliases g = []) \<Longrightarrow>
   getAliasedDF n src vnames loc iloc =
     bind_r (spy_loc n (spy_init (case alias_grp src of None \<Rightarrow> [] | Some g \<Rightarrow> aliases g)
                          (map fst (vardict src))) loc)
       (\<lambda>s. Some (no_alias_case src vnames loc iloc))"
  by (auto simp: getAliasedDF_def Let_def split: option.splits intro!: arg_cong2[where f=bind_r])

lemma getAliasedDF_no_alias:
  assumes "vnames = None \<or> alias_grp src = None \<or> (\<exists>g. alias_grp src = Some g \<and> aliases g = [])"
  shows "getAliasedDF n src vnames None iloc =
     Some (case get_df src (Some (case vnames of None \<Rightarrow> map fst (vardict src)
                                  | Some vs \<Rightarrow> if vs = [] then map fst (vardict src) else vs)) of
             Inl e \<Rightarrow> Inl e
           | Inr df \<Rightarrow> Inr (df_iloc iloc df))"
  by (simp add: no_alias_flag[OF assms] spy_loc_def bind_r_simps no_alias_case_def Let_def)

lemma getAliasedDF_no_alias_filter:
  assumes "vnames = None \<or> alias_grp src = None \<or> (\<exists>g. alias_grp src = Some g \<and> aliases g = [])"
  shows "getAliasedDF n src vnames (Some f) iloc \<noteq> Some (Inr df)"
  by (auto simp: no_alias_flag[OF assms] bind_r_def no_alias_case_def split: option.splits sum.splits)

lemma getAliasedDF_generic:
  "alias_grp src = Some g \<Longrightarrow> aliases g \<noteq> [] \<Longrightarrow>
   getAliasedDF n src (Some vs) None iloc =
     generic_case n src (spy_init (aliases g) (map fst (vardict src))) vs None iloc"
  by (simp add: getAliasedDF_def spy_loc_def bind_r_simps Let_def)

lemma generic_case_trace_None:
  "spy_trace n s vs = None \<Longrightarrow> generic_case n src s vs loc iloc = None"
  by (simp add: generic_case_def bind_r_simps)

lemma re_plain:
  "re_search (regex alias_self) ''A'' = Some []"
  "re_search (regex alias_A_to_B) ''A'' = Some []"
  "re_search (regex alias_A_to_B) ''B'' = None"
  "re_search (regex alias_B_to_A) ''B'' = Some []"
  by code_simp+

text \<open>
  C5. Without aliases (no group bound to the source, a group without aliases, or no
  names given) and without a filter, the call returns \<^verbatim>\<open>get_df\<close> of the names, or of
  the valid names, sliced (\<open>getAliasedDF_no_alias\<close>). With a filter it never returns a
  table (\<open>getAliasedDF_no_alias_filter\<close>): on the source without a group, the names
  \<^verbatim>\<open>['Y']\<close> and the filter \<^verbatim>\<open>df['X'] > 1\<close>, the filter is traced by the spy and the
  call then raises \<^verbatim>\<open>NameError\<close> for \<^verbatim>\<open>src\<close>, instead of returning the filtered rows.
\<close>

theorem no_alias_filter_raises:
  "getAliasedDF (n + 2) src_plain (Some [''Y'']) (Some filter_X_gt1) None
     = Some (Inl (NameError ''src''))"
  by (simp add: getAliasedDF_def src_plain_def spy_loc_def spy_init_def filter_X_gt1_def
      bind_r_simps no_alias_case_def Let_def)

section \<open>Self-referring aliases\<close>

lemma proxy_self_diverges:
  "px_aliasing_map px ''A'' = Some (Some (lookup1 ''A'', g)) \<Longrightarrow>
   proxy_getitem n px ''A'' = None \<and> proxy_call n px (Get ''A'' Ret) = None"
  by (induction n) (auto simp: lookup1_def)

lemma proxy_cycle_diverges:
  "px_aliasing_map px ''A'' = Some (Some (lookup1 ''B'', g)) \<Longrightarrow>
   px_aliasing_map px ''B'' = Some (Some (lookup1 ''A'', g')) \<Longrightarrow>
   proxy_getitem n px ''A'' = None \<and> proxy_call n px (Get ''A'' Ret) = None \<and>
   proxy_getitem n px ''B'' = None \<and> proxy_call n px (Get ''B'' Ret) = None"
  by (induction n) (auto simp: lookup1_def)

lemma spy_trace_self:
  "spy_trace (n + 3) (spy_init [alias_self] [''X'', ''Y'']) [''A''] =
     Some (Inr \<lparr>spy_aliases = [alias_self],
                aliasing_map = [''A'' \<mapsto> Some (lookup1 ''A'', [])],
                vnames_used = [], vnames_valid = [''X'', ''Y''], N_call = 2\<rparr>)"
  using re_plain(1)
  by (simp add: spy_init_def Let_def eval_nat_numeral alias_self_def lookup1_def)

lemma spy_trace_self_small:
  "n < 3 \<Longrightarrow> spy_trace n (spy_init [alias_self] [''X'', ''Y'']) [''A''] = None"
proof -
  assume "n < 3"
  then consider "n = 0" | "n = Suc 0" | "n = Suc (Suc 0)" by linarith
  then show ?thesis
    using re_plain(1)
    by cases (simp_all add: spy_init_def Let_def alias_self_def lookup1_def)
qed

lemma src_self_simps:
  "alias_grp src_self = Some \<lparr>group_name = ''g'', aliases = [alias_self]\<rparr>"
  "map fst (vardict src_self) = [''X'', ''Y'']"
  "get_df src_self (Some []) = Inr ([0, 1, 2], [])"
  by (simp_all add: get_df_def src_self_def src_plain_def clean_var_list_def order_var_lst_def
      upt_rec)

lemma getAliasedDF_self_None:
  "getAliasedDF n src_self (Some [''A'']) None None = None"
proof -
  let ?s0 = "spy_init [alias_self] [''X'', ''Y'']"
  have "generic_case n src_self ?s0 [''A''] None None = None"
  proof (cases "n < 3")
    case True
    then show ?thesis by (rule generic_case_trace_None[OF spy_trace_self_small])
  next
    case False
    then obtain m where m: "n = m + 3" by (metis add.commute le_Suc_ex not_less)
    let ?px = "\<lparr>px_aliasing_map = [''A'' \<mapsto> Some (lookup1 ''A'', [])], px_df = ([0, 1, 2], [])\<rparr>"
    have d: "proxy_getitem (m + 3) ?px ''A'' = None"
      using proxy_self_diverges[of ?px "[]" "m + 3"] by simp
    show ?thesis
      unfolding generic_case_def m spy_trace_self
      using d by (simp add: materialize_pass_def bind_r_simps src_self_simps del: proxy_getitem.simps)
  qed
  then show ?thesis
    by (simp add: getAliasedDF_generic[OF src_self_simps(1)] src_self_simps)
qed

lemma spy_trace_cycle:
  "spy_trace (n + 5) (spy_init [alias_A_to_B, alias_B_to_A] [''X'', ''Y'']) [''A''] =
     Some (Inr \<lparr>spy_aliases = [alias_A_to_B, alias_B_to_A],
                aliasing_map = [''A'' \<mapsto> Some (lookup1 ''B'', []), ''B'' \<mapsto> Some (lookup1 ''A'', [])],
                vnames_used = [], vnames_valid = [''X'', ''Y''], N_call = 3\<rparr>)"
  using re_plain(2-4)
  by (simp add: spy_init_def Let_def eval_nat_numeral alias_A_to_B_def alias_B_to_A_def lookup1_def)

lemma spy_trace_cycle_small:
  assumes "n < 5"
  shows "spy_trace n (spy_init [alias_A_to_B, alias_B_to_A] [''X'', ''Y'']) [''A''] = None"
proof -
  from assms consider "n = 0" | "n = Suc 0" | "n = Suc (Suc 0)" | "n = Suc (Suc (Suc 0))"
    | "n = Suc (Suc (Suc (Suc 0)))" by linarith
  then show ?thesis
    using re_plain(2-4)
    by cases (simp_all add: spy_init_def Let_def alias_A_to_B_def alias_B_to_A_def lookup1_def)
qed

lemma src_cycle_simps:
  "alias_grp src_cycle = Some \<lparr>group_name = ''g'', aliases = [alias_A_to_B, alias_B_to_A]\<rparr>"
  "map fst (vardict src_cycle) = [''X'', ''Y'']"
  "get_df src_cycle (Some []) = Inr ([0, 1, 2], [])"
  by (simp_all add: get_df_def src_cycle_def src_plain_def clean_var_list_def order_var_lst_def
      upt_rec)

lemma getAliasedDF_cycle_None:
  "getAliasedDF n src_cycle (Some [''A'']) None None = None"
proof -
  let ?s0 = "spy_init [alias_A_to_B, alias_B_to_A] [''X'', ''Y'']"
  have "generic_case n src_cycle ?s0 [''A''] None None = None"
  proof (cases "n < 5")
    case True
    then show ?thesis by (rule generic_case_trace_None[OF spy_trace_cycle_small])
  next
    case False
    then obtain m where m: "n = m + 5" by (metis add.commute le_Suc_ex not_less)
    let ?px = "\<lparr>px_aliasing_map =
        [''A'' \<mapsto> Some (lookup1 ''B'', []), ''B'' \<mapsto> Some (lookup1 ''A'', [])], px_df = ([0, 1, 2], [])\<rparr>"
    have d: "proxy_getitem (m + 5) ?px ''A'' = None"
      using proxy_cycle_diverges[of ?px "[]" "[]" "m + 5"] by simp
    show ?thesis
      unfolding generic_case_def m spy_trace_cycle
      using d by (simp add: materialize_pass_def bind_r_simps src_cycle_simps del: proxy_getitem.simps)
  qed
  then show ?thesis
    by (simp add: getAliasedDF_generic[OF src_cycle_simps(1)] src_cycle_simps)
qed

text \<open>
  C2. An alias \<^verbatim>\<open>A\<close> whose function asks for \<^verbatim>\<open>A\<close>, and two aliases \<^verbatim>\<open>A\<close> and
  \<^verbatim>\<open>B\<close> that ask for each other: the trace pass ends without an exception after two
  (three) calls, since the key is in the map before its function runs; the materialize
  pass, which has no counter, never returns, whatever the bound on the depth of calls.
  No exception for the recursion is raised by either pass.
\<close>

theorem self_reference_not_guarded:
  "spy_trace (n + 3) (spy_init [alias_self] [''X'', ''Y'']) [''A''] =
     Some (Inr \<lparr>spy_aliases = [alias_self],
                aliasing_map = [''A'' \<mapsto> Some (lookup1 ''A'', [])],
                vnames_used = [], vnames_valid = [''X'', ''Y''], N_call = 2\<rparr>) \<and>
   getAliasedDF n src_self (Some [''A'']) None None = None \<and>
   spy_trace (n + 5) (spy_init [alias_A_to_B, alias_B_to_A] [''X'', ''Y'']) [''A''] =
     Some (Inr \<lparr>spy_aliases = [alias_A_to_B, alias_B_to_A],
                aliasing_map = [''A'' \<mapsto> Some (lookup1 ''B'', []), ''B'' \<mapsto> Some (lookup1 ''A'', [])],
                vnames_used = [], vnames_valid = [''X'', ''Y''], N_call = 3\<rparr>) \<and>
   getAliasedDF n src_cycle (Some [''A'']) None None = None"
  by (simp only: spy_trace_self getAliasedDF_self_None spy_trace_cycle getAliasedDF_cycle_None)

section \<open>Registering a group twice\<close>

lemma map_filter_fresh:
  "a \<notin> set xs \<Longrightarrow> List.map_filter (f(a \<mapsto> y)) xs = List.map_filter f xs"
  by (induction xs) (auto simp: List.map_filter_simps split: option.splits)

lemma map_filter_snoc:
  "List.map_filter f (xs @ [a]) = List.map_filter f xs @ (case f a of None \<Rightarrow> [] | Some y \<Rightarrow> [y])"
  by (induction xs) (auto simp: List.map_filter_simps split: option.splits)

lemma add_alias_appends:
  assumes "alias_grps m name = Some ag" and "next_obj m \<notin> set (grp_aliases m ag)"
  shows "active_aliases (add_alias m al [name]) name
     = Some (List.map_filter (alias_obj m) (grp_aliases m ag) @ [al])"
  using assms
  by (simp add: active_aliases_def add_alias_def assign_grp_def Let_def map_filter_fresh
      map_filter_snoc)

lemma add_alias_grp_existing:
  "alias_grps m name = Some ag \<Longrightarrow>
   fst (add_alias_grp m name assigned_srcs) = Some (NameError ''alias_grp'')"
  by (simp add: add_alias_grp_def del_alias_grp_def)

lemma registered_once_eval:
  "alias_grps registered_once ''g'' = Some 1 \<and> src_alias_grp registered_once 0 = Some 1
   \<and> grp_aliases registered_once 1 = [2] \<and> grp_ref_sources registered_once 1 = [0]"
  by (simp add: registered_once_def manager_one_source_def manager_init_def add_alias_grp_def
      del_alias_grp_def set_alias_grp_def assign_src_def add_alias_def assign_grp_def Let_def)

lemma re_register_active:
  "map_option (map regex) (active_aliases (snd (add_alias_grp registered_once ''g'' [''s''])) ''g'')
     = Some [Chr CHR ''A'']"
  using registered_once_eval
  by (simp add: add_alias_grp_def del_alias_grp_def unbind_src_def active_aliases_def
      registered_once_def manager_one_source_def manager_init_def set_alias_grp_def
      assign_src_def add_alias_def assign_grp_def Let_def List.map_filter_simps alias_A_sub_def)

text \<open>
  C6. Registering the group \<^verbatim>\<open>g\<close> a second time raises \<^verbatim>\<open>NameError\<close> (every
  registration of a name already registered does, \<open>add_alias_grp_existing\<close>): the
  first group stays under the name, its alias stays the active one, and the source that
  was bound to it is left without a group.
\<close>

theorem re_register_raises:
  "alias_grps registered_once ''g'' = Some 1 \<and>
   src_alias_grp registered_once 0 = Some 1 \<and>
   grp_aliases registered_once 1 = [2] \<and>
   fst (add_alias_grp registered_once ''g'' [''s'']) = Some (NameError ''alias_grp'') \<and>
   alias_grps (snd (add_alias_grp registered_once ''g'' [''s''])) ''g'' = Some 1 \<and>
   grp_aliases (snd (add_alias_grp registered_once ''g'' [''s''])) 1 = [2] \<and>
   map_option (map regex) (active_aliases (snd (add_alias_grp registered_once ''g'' [''s''])) ''g'')
     = Some [Chr CHR ''A''] \<and>
   src_alias_grp (snd (add_alias_grp registered_once ''g'' [''s''])) 0 = None"
  using registered_once_eval re_register_active
  by (simp add: add_alias_grp_def del_alias_grp_def unbind_src_def)

section \<open>The invariant of the spy along a fetch\<close>

lemma spy_ok_init: "spy_ok (spy_init als valid)"
  by (simp add: spy_ok_def spy_init_def)

lemma spy_init_simps:
  "spy_aliases (spy_init als valid) = als" "vnames_valid (spy_init als valid) = valid"
  "N_call (spy_init als valid) = 0" "vnames_used (spy_init als valid) = []"
  "aliasing_map (spy_init als valid) = Map.empty"
  by (simp_all add: spy_init_def)

lemma spy_getitem_Inr:
  assumes "spy_getitem n s key = Some (Inr (v, s'))"
  shows "spy_ext s s'" and "N_call s < N_call s'" and "aliasing_map s' key \<noteq> None"
    and "spy_ok s \<Longrightarrow> spy_ok s'"
  using assms spy_ext_step[of n s key v s'] spy_ok_step[of n s key v s'] by simp_all

lemma spy_call_Inr:
  assumes "spy_call n s p = Some (Inr (v, s'))"
  shows "spy_ext s s'" and "spy_ok s \<Longrightarrow> spy_ok s'"
  using assms spy_ext_step[of n s _ v s' p] spy_ok_step[of n s _ v s' p] by simp_all

lemma spy_loc_Inr:
  assumes "spy_loc n s loc = Some (Inr s')"
  shows "spy_ext s s'" and "spy_ok s \<Longrightarrow> spy_ok s'"
proof -
  have "spy_ext s s' \<and> (spy_ok s \<longrightarrow> spy_ok s')"
  proof (cases loc)
    case None
    with assms show ?thesis by (simp add: spy_loc_def spy_ext_refl)
  next
    case (Some f)
    with assms obtain v where "spy_call n s f = Some (Inr (v, s'))"
      by (auto simp: spy_loc_def bind_r_def split: option.splits sum.splits)
    then show ?thesis using spy_call_Inr by blast
  qed
  then show "spy_ext s s'" and "spy_ok s \<Longrightarrow> spy_ok s'" by simp_all
qed

lemma spy_trace_Inr:
  "spy_trace n s vs = Some (Inr s') \<Longrightarrow>
   spy_ext s s' \<and> (spy_ok s \<longrightarrow> spy_ok s') \<and> (\<forall>v\<in>set vs. aliasing_map s' v \<noteq> None)"
proof (induction vs arbitrary: s)
  case Nil
  then show ?case by (simp add: spy_ext_refl)
next
  case (Cons v vs)
  from Cons.prems obtain x t where g: "spy_getitem n s v = Some (Inr (x, t))"
      and r: "spy_trace n t vs = Some (Inr s')"
    by (auto split: option.splits sum.splits)
  from Cons.IH[OF r] have ih: "spy_ext t s'" "spy_ok t \<longrightarrow> spy_ok s'"
      "\<forall>v\<in>set vs. aliasing_map s' v \<noteq> None" by simp_all
  from spy_getitem_Inr(3)[OF g] ih(1) have "aliasing_map s' v \<noteq> None"
    by (auto simp: spy_ext_def map_le_def dom_def)
  moreover from spy_getitem_Inr(1)[OF g] ih(1) have "spy_ext s s'" by (rule spy_ext_trans)
  moreover from spy_getitem_Inr(4)[OF g] ih(2) have "spy_ok s \<longrightarrow> spy_ok s'" by blast
  ultimately show ?case using ih(3) by simp
qed

lemma spy_trace_total: "2001 \<le> n \<Longrightarrow> spy_trace n s vs \<noteq> None"
proof (induction vs arbitrary: s)
  case Nil
  then show ?case by simp
next
  case (Cons v vs)
  from Cons.prems spy_total[of s n v] have "spy_getitem n s v \<noteq> None" by simp
  then obtain r where r: "spy_getitem n s v = Some r" by auto
  show ?case
  proof (cases r)
    case (Inl e)
    with r show ?thesis by simp
  next
    case (Inr xt)
    with r Cons.IH[OF Cons.prems] show ?thesis by (cases xt) simp
  qed
qed

lemma spy_loc_total: "2002 \<le> n \<Longrightarrow> spy_loc n s loc \<noteq> None"
proof (cases loc)
  case None
  then show ?thesis by (simp add: spy_loc_def)
next
  case (Some f)
  assume "2002 \<le> n"
  with spy_total[of s n _ f] have "spy_call n s f \<noteq> None" by simp
  with Some show ?thesis by (auto simp: spy_loc_def bind_r_def split: sum.splits)
qed

lemma spy_ok_entry:
  "spy_ok s \<Longrightarrow> aliasing_map s key = Some e \<Longrightarrow> e = resolution (spy_aliases s) key"
  by (simp add: spy_ok_def)

lemma spy_ok_terminal:
  "spy_ok s \<Longrightarrow> v \<in> set (vnames_used s) \<Longrightarrow>
   find_alias (spy_aliases s) v = None \<and> v \<in> set (vnames_valid s)"
proof -
  assume ok: "spy_ok s" and v: "v \<in> set (vnames_used s)"
  then have m: "aliasing_map s v = Some None" by (auto simp: spy_ok_def)
  with ok have "None = resolution (spy_aliases s) v" by (simp add: spy_ok_def)
  then have "find_alias (spy_aliases s) v = None" by (simp add: resolution_def)
  moreover from ok v have "v \<in> set (vnames_valid s)" by (auto simp: spy_ok_def)
  ultimately show ?thesis by simp
qed

lemma proxy_getitem_resolution:
  "am key = Some (resolution als key) \<Longrightarrow>
   proxy_getitem (Suc m) \<lparr>px_aliasing_map = am, px_df = df\<rparr> key =
     (case find_alias als key of
        None \<Rightarrow> Some (df_getitem df key)
      | Some (a, grps) \<Rightarrow> proxy_call m \<lparr>px_aliasing_map = am, px_df = df\<rparr> (alias_fct a grps))"
  by (auto simp: resolution_def split: option.splits)

lemma re_BA:
  "re_search (regex alias_B) ''B'' = Some []"
  "re_search (regex alias_B) ''A'' = None"
  "re_search (regex alias_A) ''A'' = Some []"
  "re_search (regex alias_B) ''X'' = None"
  "re_search (regex alias_A) ''X'' = None"
  by code_simp+

lemma find_alias_BA:
  "find_alias [alias_B, alias_A] ''B'' = Some (alias_B, [])"
  "find_alias [alias_B, alias_A] ''A'' = Some (alias_A, [])"
  "find_alias [alias_B, alias_A] ''X'' = None"
  by (simp_all add: re_BA)

lemma spy_trace_BA:
  assumes "''X'' \<in> set valid"
  shows "spy_trace (n + 5) (spy_init [alias_B, alias_A] valid) [''B''] = Some (Inr (traced_BA valid))"
proof -
  have fB: "alias_fct alias_B [] = Get ''A'' (\<lambda>a. Ret (map_out (int64_mul 2) a))"
    and fA: "alias_fct alias_A [] = Get ''X'' (\<lambda>x. Ret (map_out (int64_add 1) x))"
    by (simp_all add: alias_B_def alias_A_def)
  show ?thesis
    using assms
    by (simp add: spy_init_def Let_def eval_nat_numeral find_alias_BA fB fA traced_BA_def
        del: find_alias.simps)
qed

lemma src_BA_hyps:
  "alias_grp src_BA = Some \<lparr>group_name = ''g'', aliases = [alias_B, alias_A]\<rparr>"
  "aliases \<lparr>group_name = ''g'', aliases = [alias_B, alias_A]\<rparr> = [alias_B, alias_A]"
  "\<not> preload_data src_BA"
  "map_of (vardict src_BA) ''X'' = Some 0"
  "list_all (\<lambda>row. 0 < length row) (VarValues src_BA)"
  by (simp_all add: src_BA_def src_plain_def)

section \<open>A larger bound on the depth changes no result of the spy\<close>








section \<open>The two passes share one resolution\<close>


lemma remdups_append_subset: "set xs \<subseteq> set ys \<Longrightarrow> remdups (xs @ ys) = remdups ys"
  by (induction xs) auto

lemma proxy_spec:
  assumes "\<forall>key e. am key = Some e \<longrightarrow> e = resolution als key"
  shows "proxy_getitem n \<lparr>px_aliasing_map = am, px_df = df\<rparr> key
           = spec_getitem n als (dom am) df key
       \<and> proxy_call n \<lparr>px_aliasing_map = am, px_df = df\<rparr> p = spec_call n als (dom am) df p"
proof (induction n arbitrary: key p)
  case 0
  then show ?case by simp
next
  case (Suc n)
  let ?px = "\<lparr>px_aliasing_map = am, px_df = df\<rparr>"
  have get: "proxy_getitem (Suc n) ?px key = spec_getitem (Suc n) als (dom am) df key"
  proof (cases "am key")
    case None
    then show ?thesis by (simp add: domIff)
  next
    case (Some e)
    with assms have e: "e = resolution als key" by simp
    from Some have d: "key \<in> dom am" by auto
    show ?thesis
    proof (cases "find_alias als key")
      case None
      with e Some d show ?thesis by (simp add: resolution_def)
    next
      case (Some ag)
      obtain a g where "ag = (a, g)" by (cases ag)
      with Some e \<open>am key = Some e\<close> d Suc.IH[of _ "alias_fct a g"] show ?thesis
        by (simp add: resolution_def)
    qed
  qed
  have call: "proxy_call (Suc n) ?px p = spec_call (Suc n) als (dom am) df p"
  proof (cases p)
    case (Ret x)
    then show ?thesis by simp
  next
    case (Get k c)
    with Suc.IH show ?thesis by (simp split: option.splits sum.splits)
  qed
  from get call show ?case by simp
qed

lemma materialize_spec:
  assumes "\<forall>key e. am key = Some e \<longrightarrow> e = resolution als key"
  shows "materialize n \<lparr>px_aliasing_map = am, px_df = df\<rparr> vs acc
           = spec_materialize n als (dom am) df vs acc"
proof (induction vs arbitrary: acc)
  case Nil
  then show ?case by simp
next
  case (Cons v vs)
  from proxy_spec[OF assms, of n df v] Cons.IH show ?case
    by (simp split: option.splits sum.splits del: proxy_getitem.simps spec_getitem.simps)
qed

lemma getAliasedDF_alias_path:
  "alias_grp src = Some g \<Longrightarrow> aliases g \<noteq> [] \<Longrightarrow>
   getAliasedDF n src (Some vs) loc iloc =
     bind_r (spy_loc n (spy_init (aliases g) (map fst (vardict src))) loc)
       (\<lambda>s. generic_case n src s vs loc iloc)"
  by (simp add: getAliasedDF_def Let_def)

lemma getAliasedDF_traced:
  assumes "alias_grp src = Some g" and "aliases g \<noteq> []"
    and "spy_loc n (spy_init (aliases g) (map fst (vardict src))) loc = Some (Inr s1)"
    and "spy_trace n s1 vs = Some (Inr s2)"
  shows "getAliasedDF n src (Some vs) loc iloc = materialize_pass n src s2 vs loc iloc"
  by (simp add: getAliasedDF_alias_path[OF assms(1,2)] assms(3,4) generic_case_def bind_r_simps)

lemma materialize_pass_names:
  "materialize_pass n src s2 vs loc iloc =
     bind_r (Some (get_df src (Some (remdups (vnames_used s2))))) (\<lambda>df_used.
       bind_r (materialize n \<lparr>px_aliasing_map = aliasing_map s2, px_df = df_used\<rparr> vs [])
         (\<lambda>series_out. bind_r (Some (concat_axis1 series_out)) (\<lambda>df.
            bind_r (case loc of
                      None \<Rightarrow> Some (Inr df)
                    | Some f \<Rightarrow> bind_r (proxy_call n
                          \<lparr>px_aliasing_map = aliasing_map s2, px_df = df_used\<rparr> f)
                          (\<lambda>m. Some (df_loc df m)))
              (\<lambda>df'. Some (Inr (df_iloc iloc df'))))))"
  by (cases loc) (simp_all add: materialize_pass_def Let_def remdups_append_subset)

lemma materialize_pass_spec:
  assumes "\<forall>key e. aliasing_map s2 key = Some e \<longrightarrow> e = resolution als key"
  shows "materialize_pass n src s2 vs loc iloc =
     spec_materialize_pass n src als (dom (aliasing_map s2)) (vnames_used s2) vs loc iloc"
  unfolding materialize_pass_names spec_materialize_pass_def
  by (cases loc) (simp_all add: materialize_spec[OF assms] proxy_spec[OF assms])

lemma traced_ok:
  assumes "spy_loc n (spy_init als valid) loc = Some (Inr s1)"
    and "spy_trace n s1 vs = Some (Inr s2)"
  shows "spy_ok s1" "spy_ok s2" "spy_ext s1 s2" "spy_aliases s1 = als" "spy_aliases s2 = als"
    "vnames_valid s1 = valid" "vnames_valid s2 = valid" "\<forall>v\<in>set vs. aliasing_map s2 v \<noteq> None"
proof -
  from spy_loc_Inr[OF assms(1)] spy_ok_init have 1: "spy_ok s1" "spy_ext (spy_init als valid) s1"
    by simp_all
  from spy_trace_Inr[OF assms(2)] 1 have 2: "spy_ok s2" "spy_ext s1 s2"
      "\<forall>v\<in>set vs. aliasing_map s2 v \<noteq> None" by simp_all
  from 1 2 show "spy_ok s1" "spy_ok s2" "spy_ext s1 s2" "spy_aliases s1 = als" "spy_aliases s2 = als"
    "vnames_valid s1 = valid" "vnames_valid s2 = valid" "\<forall>v\<in>set vs. aliasing_map s2 v \<noteq> None"
    by (simp_all add: spy_ext_def spy_init_simps)
qed

text \<open>
  C1. In a fetch on an aliased source whose trace pass succeeds (the filter, then the
  requested names), with \<open>s1\<close> the spy after the filter and \<open>s2\<close> the spy after the names:
  every entry of the map the spy ends with is the resolution of its key against the
  group's aliases (the function of the first alias that matches and the groups of that
  match, or the mark of a final variable); an entry made while tracing the filter is
  still the same after tracing the names; every requested name has an entry; the aliasing
  proxy built on this map, asked for any key, does what the materializer of the
  specification does with the resolutions; and the whole fetch \<^verbatim>\<open>getAliasedDF\<close> is the
  materialize pass of the specification on the names the spy resolved: it reads the
  final variables the spy recorded, applies to each requested name the function and the
  groups of its resolution, concatenates, filters and slices.
\<close>

theorem passes_share_resolution:
  assumes "alias_grp src = Some g" and "aliases g \<noteq> []"
    and "spy_loc n (spy_init (aliases g) (map fst (vardict src))) loc = Some (Inr s1)"
    and "spy_trace n s1 vs = Some (Inr s2)"
  shows "(\<forall>key e. aliasing_map s2 key = Some e \<longrightarrow> e = resolution (aliases g) key) \<and>
         (\<forall>key e. aliasing_map s1 key = Some e \<longrightarrow> aliasing_map s2 key = Some e) \<and>
         (\<forall>v\<in>set vs. aliasing_map s2 v \<noteq> None) \<and>
         (\<forall>m df key. proxy_getitem m \<lparr>px_aliasing_map = aliasing_map s2, px_df = df\<rparr> key
                        = spec_getitem m (aliases g) (dom (aliasing_map s2)) df key) \<and>
         getAliasedDF n src (Some vs) loc iloc =
           spec_materialize_pass n src (aliases g) (dom (aliasing_map s2)) (vnames_used s2)
             vs loc iloc"
proof -
  note t = traced_ok[OF assms(3,4)]
  from spy_ok_entry[OF t(2)] t(5)
  have r: "\<forall>key e. aliasing_map s2 key = Some e \<longrightarrow> e = resolution (aliases g) key" by simp
  from t(3) have m: "\<forall>key e. aliasing_map s1 key = Some e \<longrightarrow> aliasing_map s2 key = Some e"
    by (auto simp: spy_ext_def map_le_def dom_def)
  have p: "\<forall>m df key. proxy_getitem m \<lparr>px_aliasing_map = aliasing_map s2, px_df = df\<rparr> key
                        = spec_getitem m (aliases g) (dom (aliasing_map s2)) df key"
    using proxy_spec[OF r] by blast
  have f: "getAliasedDF n src (Some vs) loc iloc =
           spec_materialize_pass n src (aliases g) (dom (aliasing_map s2)) (vnames_used s2)
             vs loc iloc"
    by (simp only: getAliasedDF_traced[OF assms] materialize_pass_spec[OF r])
  from r m t(8) p f show ?thesis by blast
qed

lemma fetch_BA_value:
  "getAliasedDF 5 src_BA (Some [''B'']) None None
     = Some (Inr ([0, 1, 2], [(''B'', [Int64 4, Int64 6, Int64 8])]))"
  by code_simp

theorem passes_share_resolution_witness:
  "alias_grp src_BA = Some \<lparr>group_name = ''g'', aliases = [alias_B, alias_A]\<rparr> \<and>
   spy_loc 5 (spy_init [alias_B, alias_A] [''X'', ''Y'']) None
     = Some (Inr (spy_init [alias_B, alias_A] [''X'', ''Y''])) \<and>
   spy_trace 5 (spy_init [alias_B, alias_A] [''X'', ''Y'']) [''B'']
     = Some (Inr (traced_BA [''X'', ''Y''])) \<and>
   aliasing_map (traced_BA [''X'', ''Y'']) ''B'' = Some (Some (alias_fct alias_B, [])) \<and>
   Some (alias_fct alias_B, []) = resolution [alias_B, alias_A] ''B'' \<and>
   aliasing_map (traced_BA [''X'', ''Y'']) ''A'' = Some (Some (alias_fct alias_A, [])) \<and>
   Some (alias_fct alias_A, []) = resolution [alias_B, alias_A] ''A'' \<and>
   proxy_getitem 4
       \<lparr>px_aliasing_map = aliasing_map (traced_BA [''X'', ''Y'']),
        px_df = ([7], [(''X'', [Int64 1])])\<rparr> ''B''
     = spec_getitem 4 [alias_B, alias_A] (dom (aliasing_map (traced_BA [''X'', ''Y'']))) 
         ([7], [(''X'', [Int64 1])]) ''B'' \<and>
   getAliasedDF 5 src_BA (Some [''B'']) None None
     = spec_materialize_pass 5 src_BA [alias_B, alias_A]
         (dom (aliasing_map (traced_BA [''X'', ''Y''])))
         (vnames_used (traced_BA [''X'', ''Y''])) [''B''] None None \<and>
   getAliasedDF 5 src_BA (Some [''B'']) None None
     = Some (Inr ([0, 1, 2], [(''B'', [Int64 4, Int64 6, Int64 8])]))"
proof -
  have g: "aliases \<lparr>group_name = ''g'', aliases = [alias_B, alias_A]\<rparr> \<noteq> []" by simp
  have v: "map fst (vardict src_BA) = [''X'', ''Y'']" by (simp add: src_BA_def src_plain_def)
  have 1: "spy_loc 5 (spy_init (aliases \<lparr>group_name = ''g'', aliases = [alias_B, alias_A]\<rparr>)
      (map fst (vardict src_BA))) None = Some (Inr (spy_init [alias_B, alias_A] [''X'', ''Y'']))"
    by (simp add: spy_loc_def v)
  have 2: "spy_trace 5 (spy_init [alias_B, alias_A] [''X'', ''Y'']) [''B'']
     = Some (Inr (traced_BA [''X'', ''Y'']))"
    using spy_trace_BA[of "[''X'', ''Y'']" 0] by simp
  have b: "aliasing_map (traced_BA [''X'', ''Y'']) ''B'' = Some (Some (alias_fct alias_B, []))"
    and a: "aliasing_map (traced_BA [''X'', ''Y'']) ''A'' = Some (Some (alias_fct alias_A, []))"
    by (simp_all add: traced_BA_def)
  note t = passes_share_resolution[OF src_BA_hyps(1) g 1 2, of None, unfolded AliasGroup.simps]
  from t b have rb: "Some (alias_fct alias_B, []) = resolution [alias_B, alias_A] ''B''"
    by blast
  from t a have ra: "Some (alias_fct alias_A, []) = resolution [alias_B, alias_A] ''A''"
    by blast
  from t have p: "proxy_getitem 4
       \<lparr>px_aliasing_map = aliasing_map (traced_BA [''X'', ''Y'']),
        px_df = ([7], [(''X'', [Int64 1])])\<rparr> ''B''
     = spec_getitem 4 [alias_B, alias_A] (dom (aliasing_map (traced_BA [''X'', ''Y''])))
         ([7], [(''X'', [Int64 1])]) ''B''"
    by blast
  from t have f: "getAliasedDF 5 src_BA (Some [''B'']) None None
     = spec_materialize_pass 5 src_BA [alias_B, alias_A]
         (dom (aliasing_map (traced_BA [''X'', ''Y''])))
         (vnames_used (traced_BA [''X'', ''Y''])) [''B''] None None"
    by blast
  from 1 have l1: "spy_loc 5 (spy_init [alias_B, alias_A] [''X'', ''Y'']) None
     = Some (Inr (spy_init [alias_B, alias_A] [''X'', ''Y'']))" by (simp add: spy_loc_def)
  from src_BA_hyps(1) l1 2 b rb a ra p f fetch_BA_value show ?thesis by (simp only: simp_thms)
qed

section \<open>What the source returns\<close>











lemma get_df_single:
  assumes "\<not> preload_data src" and "map_of (vardict src) v = Some c"
    and "list_all (\<lambda>row. c < length row) (VarValues src)"
  shows "get_df src (Some [v]) =
     Inr (map int [0..<length (VarValues src)], [(v, map (\<lambda>row. row ! c) (VarValues src))])"
proof -
  from assms(2) have "v \<in> set (map fst (vardict src))"
    by (metis map_of_eq_None_iff option.distinct(1) set_map)
  then have "clean_var_list src [v] = ([v], [])"
    by (simp add: clean_var_list_def clean_step_def)
  with assms show ?thesis
    by (simp add: get_df_def order_var_lst_def)
qed

lemma concat_single: "concat_axis1 [c] = Inr (labels c, [(fst c, cells c)])"
  by (simp add: concat_axis1_def)

section \<open>An alias of an alias\<close>

lemma find_alias_valid:
  "map_of vd k = Some c \<Longrightarrow> k \<in> set (map fst vd)"
  by (metis map_of_eq_None_iff option.distinct(1) set_map)

lemma two_layer_trace:
  assumes "find_alias als kB = Some (aB, gB)" and "alias_fct aB gB = Get kA (\<lambda>a. Ret (fB a))"
    and "find_alias als kA = Some (aA, gA)" and "alias_fct aA gA = Get kX (\<lambda>x. Ret (fA x))"
    and "find_alias als kX = None" and "kX \<in> set valid"
  shows "spy_trace (n + 5) (spy_init als valid) [kB] =
     Some (Inr \<lparr>spy_aliases = als,
                 aliasing_map = [kB \<mapsto> Some (alias_fct aB, gB), kA \<mapsto> Some (alias_fct aA, gA),
                                 kX \<mapsto> None],
                 vnames_used = [kX], vnames_valid = valid, N_call = 3\<rparr>)"
proof -
  from assms(1,3,5) have ne: "kA \<noteq> kX" "kB \<noteq> kX" by auto
  have "kA \<noteq> kB"
  proof
    assume "kA = kB"
    with assms(1-4) have "kA = kX" by simp
    with ne show False by simp
  qed
  with ne assms show ?thesis
    by (simp add: spy_init_def Let_def eval_nat_numeral del: find_alias.simps)
qed

lemma two_layer_proxy:
  assumes "kA \<noteq> kX" "kB \<noteq> kX" "kA \<noteq> kB"
    and "alias_fct aB gB = Get kA (\<lambda>a. Ret (fB a))"
    and "alias_fct aA gA = Get kX (\<lambda>x. Ret (fA x))"
  shows "proxy_getitem (n + 5)
      \<lparr>px_aliasing_map = [kB \<mapsto> Some (alias_fct aB, gB), kA \<mapsto> Some (alias_fct aA, gA),
                          kX \<mapsto> None],
       px_df = (idx, [(kX, col)])\<rparr> kB
     = Some (Inr (fB (fA (Single (kX, zip idx col)))))"
  using assms by (simp add: eval_nat_numeral df_getitem_def)

lemma map_out_Single: "map_out f (Single (k, zip idx col)) = Single (k, zip idx (map f col))"
  by (simp add: map_out_def map_rows_def zip_map2 case_prod_unfold)

lemma assemble_single:
  "length idx = length col \<Longrightarrow>
   assemble (collect k (Single (k', zip idx col))) None None = Inr (idx, [(k, col)])"
  by (simp add: assemble_def collect_def rename_def concat_single labels_def cells_def df_iloc_def)

text \<open>
  C3. On a source bound to a group in which the name \<open>kB\<close> resolves to an alias whose
  function asks for \<open>kA\<close> and returns \<open>fB\<close> of it, \<open>kA\<close> resolves to an alias whose
  function asks for \<open>kX\<close> and returns \<open>fA\<close> of it, and \<open>kX\<close>, matched by no alias, is a
  column of the source: fetching \<open>kB\<close> traces through both aliases down to \<open>kX\<close>, the
  names used are \<open>kX\<close> alone, the source is read for the column \<open>kX\<close> alone, and the
  fetch returns what concatenation makes of \<open>fB (fA X)\<close> under the name \<open>kB\<close>. When the
  two functions work cell by cell, as \<^verbatim>\<open>X + 1\<close> and \<^verbatim>\<open>A * 2\<close> do, the table returned
  has the rows of the source and the one column \<open>kB\<close>, each cell the second function of
  the first function of the cell of \<open>kX\<close>.
\<close>

theorem transitive_aliasing:
  assumes "alias_grp src = Some g"
    and "find_alias (aliases g) kB = Some (aB, gB)"
    and "alias_fct aB gB = Get kA (\<lambda>a. Ret (fB a))"
    and "find_alias (aliases g) kA = Some (aA, gA)"
    and "alias_fct aA gA = Get kX (\<lambda>x. Ret (fA x))"
    and "find_alias (aliases g) kX = None"
    and "\<not> preload_data src" and "map_of (vardict src) kX = Some c"
    and "list_all (\<lambda>row. c < length row) (VarValues src)"
    and "idx = map int [0..<length (VarValues src)]"
    and "col = map (\<lambda>row. row ! c) (VarValues src)"
  shows "(\<exists>s'. spy_trace (n + 5) (spy_init (aliases g) (map fst (vardict src))) [kB]
                 = Some (Inr s') \<and>
               aliasing_map s' = [kB \<mapsto> Some (alias_fct aB, gB),
                                  kA \<mapsto> Some (alias_fct aA, gA), kX \<mapsto> None] \<and>
               vnames_used s' = [kX] \<and>
               get_df src (Some (remdups (vnames_used s'))) = Inr (idx, [(kX, col)])) \<and>
         getAliasedDF (n + 5) src (Some [kB]) None None =
           Some (assemble (collect kB (fB (fA (Single (kX, zip idx col))))) None None) \<and>
         (\<forall>p q. fA = map_out p \<longrightarrow> fB = map_out q \<longrightarrow>
            getAliasedDF (n + 5) src (Some [kB]) None None
              = Some (Inr (idx, [(kB, map (\<lambda>x. q (p x)) col)])))"
proof -
  let ?valid = "map fst (vardict src)"
  let ?s' = "\<lparr>spy_aliases = aliases g,
             aliasing_map = [kB \<mapsto> Some (alias_fct aB, gB), kA \<mapsto> Some (alias_fct aA, gA),
                             kX \<mapsto> None],
             vnames_used = [kX], vnames_valid = ?valid, N_call = 3\<rparr>"
  from assms(2) have ne: "aliases g \<noteq> []" by auto
  from assms(2,4,6) have k: "kA \<noteq> kX" "kB \<noteq> kX" by auto
  have kAB: "kA \<noteq> kB"
  proof
    assume "kA = kB"
    with assms(2-5) have "kA = kX" by simp
    with k show False by simp
  qed
  note t = two_layer_trace[OF assms(2-6) find_alias_valid[OF assms(8)], of n]
  have gd: "get_df src (Some (remdups (vnames_used ?s'))) = Inr (idx, [(kX, col)])"
    using get_df_single[OF assms(7-9)] assms(10,11) by simp
  have m: "materialize (n + 5)
      \<lparr>px_aliasing_map = aliasing_map ?s', px_df = (idx, [(kX, col)])\<rparr> [kB] []
    = Some (Inr (collect kB (fB (fA (Single (kX, zip idx col))))))"
    using two_layer_proxy[OF k kAB assms(3,5), of n idx col]
    by (simp del: proxy_getitem.simps)
  have mp: "materialize_pass (n + 5) src ?s' [kB] None None =
      Some (assemble (collect kB (fB (fA (Single (kX, zip idx col))))) None None)"
    unfolding materialize_pass_names
    by (simp only: gd bind_r_simps m assemble_def option.simps split: sum.splits) (simp add: bind_r_simps)
  have sl: "spy_loc (n + 5) (spy_init (aliases g) ?valid) None
      = Some (Inr (spy_init (aliases g) ?valid))" by (simp add: spy_loc_def)
  from getAliasedDF_traced[OF assms(1) ne sl t] mp
  have f: "getAliasedDF (n + 5) src (Some [kB]) None None =
      Some (assemble (collect kB (fB (fA (Single (kX, zip idx col))))) None None)" by simp
  have e: "\<forall>p q. fA = map_out p \<longrightarrow> fB = map_out q \<longrightarrow>
            getAliasedDF (n + 5) src (Some [kB]) None None
              = Some (Inr (idx, [(kB, map (\<lambda>x. q (p x)) col)]))"
  proof (intro allI impI)
    fix p q assume "fA = map_out p" "fB = map_out q"
    with f assms(10,11) show "getAliasedDF (n + 5) src (Some [kB]) None None
              = Some (Inr (idx, [(kB, map (\<lambda>x. q (p x)) col)]))"
      by (simp add: map_out_Single assemble_single comp_def)
  qed
  have x: "\<exists>s'. spy_trace (n + 5) (spy_init (aliases g) ?valid) [kB] = Some (Inr s') \<and>
               aliasing_map s' = [kB \<mapsto> Some (alias_fct aB, gB),
                                  kA \<mapsto> Some (alias_fct aA, gA), kX \<mapsto> None] \<and>
               vnames_used s' = [kX] \<and>
               get_df src (Some (remdups (vnames_used s'))) = Inr (idx, [(kX, col)])"
    apply (rule exI[where x="?s'"])
    apply (intro conjI)
       apply (rule t)
      apply simp
     apply simp
    apply (rule gd)
    done
  from x f e show ?thesis by blast
qed

lemma fct_BA:
  "alias_fct alias_B [] = Get ''A'' (\<lambda>a. Ret (map_out (int64_mul 2) a))"
  "alias_fct alias_A [] = Get ''X'' (\<lambda>x. Ret (map_out (int64_add 1) x))"
  by (simp_all add: alias_B_def alias_A_def)

lemma src_wrap_hyps:
  "alias_grp src_wrap = Some \<lparr>group_name = ''g'', aliases = [alias_B, alias_A]\<rparr>"
  "\<not> preload_data src_wrap"
  "map_of (vardict src_wrap) ''X'' = Some 0"
  "list_all (\<lambda>row. 0 < length row) (VarValues src_wrap)"
  by (simp_all add: src_wrap_def src_BA_def src_plain_def)

theorem transitive_aliasing_witness:
  "alias_grp src_BA = Some \<lparr>group_name = ''g'', aliases = [alias_B, alias_A]\<rparr> \<and>
   find_alias [alias_B, alias_A] ''B'' = Some (alias_B, []) \<and>
   alias_fct alias_B [] = Get ''A'' (\<lambda>a. Ret (map_out (int64_mul 2) a)) \<and>
   find_alias [alias_B, alias_A] ''A'' = Some (alias_A, []) \<and>
   alias_fct alias_A [] = Get ''X'' (\<lambda>x. Ret (map_out (int64_add 1) x)) \<and>
   find_alias [alias_B, alias_A] ''X'' = None \<and>
   \<not> preload_data src_BA \<and> map_of (vardict src_BA) ''X'' = Some 0 \<and>
   list_all (\<lambda>row. 0 < length row) (VarValues src_BA) \<and>
   (\<exists>s'. spy_trace 5 (spy_init [alias_B, alias_A] [''X'', ''Y'']) [''B''] = Some (Inr s') \<and>
      aliasing_map s' = [''B'' \<mapsto> Some (alias_fct alias_B, []),
                         ''A'' \<mapsto> Some (alias_fct alias_A, []), ''X'' \<mapsto> None] \<and>
      vnames_used s' = [''X''] \<and>
      get_df src_BA (Some (remdups (vnames_used s')))
        = Inr ([0, 1, 2], [(''X'', [Int64 1, Int64 2, Int64 3])])) \<and>
   getAliasedDF 5 src_BA (Some [''B'']) None None
     = Some (Inr ([0, 1, 2], [(''B'', [Int64 4, Int64 6, Int64 8])])) \<and>
   getAliasedDF 5 src_wrap (Some [''B'']) None None
     = Some (Inr ([0, 1], [(''B'', [Int64 0, Int64 0])]))"
proof -
  have v: "map fst (vardict src_BA) = [''X'', ''Y'']"
    and i: "map int [0..<length (VarValues src_BA)] = [0, 1, 2]"
    and x: "map (\<lambda>row. row ! 0) (VarValues src_BA) = [Int64 1, Int64 2, Int64 3]"
    and iw: "map int [0..<length (VarValues src_wrap)] = [0, 1]"
    and xw: "map (\<lambda>row. row ! 0) (VarValues src_wrap) = [Int64 0x7FFFFFFFFFFFFFFF, Int64 (- 1)]"
    by (simp_all add: src_wrap_def src_BA_def src_plain_def upt_rec)
  note t = transitive_aliasing[OF src_BA_hyps(1) _ fct_BA(1) _ fct_BA(2) _ src_BA_hyps(3-5) refl refl,
      unfolded AliasGroup.simps, OF find_alias_BA, of 0, unfolded v i x]
  note w = transitive_aliasing[OF src_wrap_hyps(1) _ fct_BA(1) _ fct_BA(2) _ src_wrap_hyps(2-4) refl refl,
      unfolded AliasGroup.simps, OF find_alias_BA, of 0, unfolded iw xw]
  from t have 1: "\<exists>s'. spy_trace 5 (spy_init [alias_B, alias_A] [''X'', ''Y'']) [''B''] = Some (Inr s') \<and>
      aliasing_map s' = [''B'' \<mapsto> Some (alias_fct alias_B, []),
                         ''A'' \<mapsto> Some (alias_fct alias_A, []), ''X'' \<mapsto> None] \<and>
      vnames_used s' = [''X''] \<and>
      get_df src_BA (Some (remdups (vnames_used s')))
        = Inr ([0, 1, 2], [(''X'', [Int64 1, Int64 2, Int64 3])])"
    by simp
  from t have "getAliasedDF (0 + 5) src_BA (Some [''B'']) None None
     = Some (Inr ([0, 1, 2], [(''B'', map (\<lambda>x. int64_mul 2 (int64_add 1 x)) [Int64 1, Int64 2, Int64 3])]))"
    by blast
  then have 2: "getAliasedDF 5 src_BA (Some [''B'']) None None
     = Some (Inr ([0, 1, 2], [(''B'', [Int64 4, Int64 6, Int64 8])]))"
    by (simp add: int64_mul_def int64_add_def)
  from w have "getAliasedDF (0 + 5) src_wrap (Some [''B'']) None None
     = Some (Inr ([0, 1], [(''B'', map (\<lambda>x. int64_mul 2 (int64_add 1 x))
          [Int64 0x7FFFFFFFFFFFFFFF, Int64 (- 1)])]))"
    by blast
  then have 3: "getAliasedDF 5 src_wrap (Some [''B'']) None None
     = Some (Inr ([0, 1], [(''B'', [Int64 0, Int64 0])]))"
    by (simp add: int64_mul_def int64_add_def)
  from src_BA_hyps(1,3-5) find_alias_BA fct_BA 1 2 3 show ?thesis by (simp only: simp_thms)
qed

section \<open>Names that are neither aliased nor valid\<close>

lemma spy_getitem_unknown:
  assumes "spy_ok s" and "find_alias (spy_aliases s) key = None"
    and "key \<notin> set (vnames_valid s)"
  shows "spy_getitem (Suc m) s key = Some (Inl (unknown_error s key))"
proof -
  have "aliasing_map s key = None"
  proof (cases "aliasing_map s key")
    case None
    then show ?thesis .
  next
    case (Some e)
    with assms(1) have "e = resolution (spy_aliases s) key" by (rule spy_ok_entry)
    with assms(2) have "e = None" by (simp add: resolution_def)
    with Some assms(1) have "key \<in> set (vnames_valid s)" unfolding spy_ok_def by blast
    with assms(3) show ?thesis by simp
  qed
  with assms(2,3) show ?thesis by (simp add: Let_def unknown_error_def)
qed

lemma spy_ok_enter:
  assumes "spy_ok s" and "aliasing_map s key = None"
    and "find_alias (spy_aliases s) key = Some (a, grps)"
  shows "spy_ok (s\<lparr>N_call := N_call s + 1,
                  aliasing_map := (aliasing_map s)(key \<mapsto> Some (alias_fct a, grps))\<rparr>)"
  using assms unfolding spy_ok_def by (auto simp: resolution_def)

lemma spy_asks_fails:
  "spy_asks n s p m k t \<Longrightarrow> 0 < m \<Longrightarrow> spy_ok s \<Longrightarrow> find_alias (spy_aliases s) k = None \<Longrightarrow>
   k \<notin> set (vnames_valid s) \<Longrightarrow> spy_call n s p = Some (Inl (unknown_error t k))"
proof (induction rule: spy_asks.induct)
  case (here n s key c)
  from here(1) obtain m' where "n = Suc m'" by (cases n) auto
  with spy_getitem_unknown[OF here(2-4), of m'] show ?case
    by (simp del: spy_getitem.simps)
next
  case (inside s key0 a grps n m key t c)
  let ?s = "s\<lparr>N_call := N_call s + 1,
              aliasing_map := (aliasing_map s)(key0 \<mapsto> Some (alias_fct a, grps))\<rparr>"
  from spy_ok_enter[OF inside.prems(2) inside.hyps(1,3)] have ok: "spy_ok ?s" .
  from inside.IH[OF inside.prems(1) ok] inside.prems(3,4)
  have "spy_call n ?s (alias_fct a grps) = Some (Inl (unknown_error t key))" by simp
  with spy_getitem_alias[OF inside.hyps(3,1,2), of n]
  show ?case by (simp del: spy_getitem.simps)
next
  case (after n s key0 v s' c m key t)
  from spy_getitem_Inr[OF after.hyps(1)] after.prems(2)
  have ok: "spy_ok s'" and e: "spy_ext s s'" by simp_all
  from e after.prems(3,4) have "find_alias (spy_aliases s') key = None"
      "key \<notin> set (vnames_valid s')" by (simp_all add: spy_ext_def)
  from after.IH[OF after.prems(1) ok this] after.hyps(1) show ?case
    by (simp del: spy_getitem.simps)
qed

lemma getAliasedDF_spy_loc:
  "getAliasedDF n src vnames loc iloc =
     bind_r (spy_loc n (spy_init (src_aliases src) (map fst (vardict src))) loc)
       (\<lambda>s. case vnames of
               None \<Rightarrow> Some (no_alias_case src vnames loc iloc)
             | Some vs \<Rightarrow>
                 if src_aliases src = [] then Some (no_alias_case src vnames loc iloc)
                 else generic_case n src s vs loc iloc)"
  by (auto simp: getAliasedDF_def Let_def src_aliases_def split: option.splits
      intro!: arg_cong2[where f=bind_r])

lemma filter_unknown_fails:
  assumes "spy_asks n (spy_init (src_aliases src) (map fst (vardict src))) f m k t" and "0 < m"
    and "find_alias (src_aliases src) k = None" and "k \<notin> set (map fst (vardict src))"
  shows "getAliasedDF n src vnames (Some f) iloc = Some (Inl (unknown_error t k))"
proof -
  from spy_asks_fails[OF assms(1,2) spy_ok_init] assms(3,4)
  have "spy_call n (spy_init (src_aliases src) (map fst (vardict src))) f
      = Some (Inl (unknown_error t k))" by (simp add: spy_init_simps)
  then show ?thesis by (simp add: getAliasedDF_spy_loc spy_loc_def bind_r_simps)
qed

lemma spy_trace_append:
  "spy_trace n s (pre @ k # post) =
     (case spy_trace n s pre of
        None \<Rightarrow> None
      | Some (Inl e) \<Rightarrow> Some (Inl e)
      | Some (Inr s') \<Rightarrow> spy_trace n s' (k # post))"
  by (induction pre arbitrary: s) (auto split: option.splits sum.splits)

lemma src_aliases_path:
  "src_aliases src \<noteq> [] \<Longrightarrow>
   \<exists>g. alias_grp src = Some g \<and> aliases g \<noteq> [] \<and> src_aliases src = aliases g"
  by (auto simp: src_aliases_def split: option.splits)

lemma getAliasedDF_loc_Inl:
  "spy_loc n (spy_init (src_aliases src) (map fst (vardict src))) loc = Some (Inl e) \<Longrightarrow>
   getAliasedDF n src vnames loc iloc = Some (Inl e)"
  by (simp add: getAliasedDF_spy_loc bind_r_simps)

lemma getAliasedDF_trace_Inl:
  "src_aliases src \<noteq> [] \<Longrightarrow>
   spy_loc n (spy_init (src_aliases src) (map fst (vardict src))) loc = Some (Inr s1) \<Longrightarrow>
   spy_trace n s1 vs = Some (Inl e) \<Longrightarrow>
   getAliasedDF n src (Some vs) loc iloc = Some (Inl e)"
  by (simp add: getAliasedDF_spy_loc generic_case_def bind_r_simps)

lemma clean_fold_fst:
  "fst (fold (clean_step ex) vs (a, b)) = fst (fold (clean_step ex) vs (a, b'))"
proof (induction vs arbitrary: a b b')
  case Nil
  then show ?case by simp
next
  case (Cons v vs)
  show ?case
  proof (cases "v \<in> set ex")
    case True
    with Cons.IH show ?thesis by (simp add: clean_step_def)
  next
    case False
    with Cons.IH[of a "b @ [v]" "b' @ [v]"] show ?thesis by (simp add: clean_step_def)
  qed
qed

lemma clean_var_list_unknown:
  assumes "k \<notin> set (map fst (vardict src))"
  shows "fst (clean_var_list src (pre @ k # post)) = fst (clean_var_list src (pre @ post))"
proof -
  let ?f = "clean_step (map fst (vardict src))"
  obtain a b where ab: "fold ?f pre ([], []) = (a, b)" by (cases "fold ?f pre ([], [])")
  from assms have "?f k (a, b) = (a, b @ [k])" by (simp add: clean_step_def)
  with ab clean_fold_fst[of "map fst (vardict src)" post a "b @ [k]" b]
  show ?thesis by (simp add: clean_var_list_def)
qed

lemma get_df_unknown:
  "k \<notin> set (map fst (vardict src)) \<Longrightarrow>
   get_df src (Some (pre @ k # post)) = get_df src (Some (pre @ post))"
  by (simp add: get_df_def clean_var_list_unknown)

lemma fast_path_drops:
  assumes "src_aliases src = []" and "k \<notin> set (map fst (vardict src))"
  shows "getAliasedDF n src (Some (pre @ k # post)) None iloc =
     Some (case get_df src (Some (pre @ post)) of
             Inl e \<Rightarrow> Inl e
           | Inr df \<Rightarrow> Inr (df_iloc iloc df))"
  using assms
  by (simp add: getAliasedDF_spy_loc spy_loc_def bind_r_simps no_alias_case_def get_df_unknown)

text \<open>
  C4, as the code has it. Let a name be matched by no alias of the source's group and be
  no valid name of the source. The spy asked for the name raises the exception that
  carries it (\<^verbatim>\<open>KeyError\<close>, or the counter's \<^verbatim>\<open>ValueError\<close> once a thousand calls were
  made), whoever asks. A fetch with a filter whose run on the spy comes to ask for the
  name, directly or inside an alias function, ends in that exception, with or without
  aliases on the source and whatever names are requested; so does a fetch whose filter
  asks for the name first. On a source with aliases, a fetch whose list holds the name
  ends in an exception, never in a table, and when the filter and the names before it
  were traced without exception, the exception is the one for this name. On a source
  without aliases and without filter, the name is left out: the fetch returns what the
  source returns for the list without the name.
\<close>

theorem unknown_name_rejected:
  assumes "find_alias (src_aliases src) k = None" and "k \<notin> set (map fst (vardict src))"
  shows "(\<forall>(s::spy) m. spy_ok s \<longrightarrow> spy_aliases s = src_aliases src \<longrightarrow>
            vnames_valid s = map fst (vardict src) \<longrightarrow>
            spy_getitem (Suc m) s k = Some (Inl (unknown_error s k))) \<and>
         (\<forall>n f m t vnames iloc.
            spy_asks n (spy_init (src_aliases src) (map fst (vardict src))) f (Suc m) k t \<longrightarrow>
            getAliasedDF n src vnames (Some f) iloc = Some (Inl (unknown_error t k))) \<and>
         (\<forall>n c vnames iloc.
            getAliasedDF (Suc (Suc n)) src vnames (Some (Get k c)) iloc
              = Some (Inl (KeyError (not_valid_msg k)))) \<and>
         (\<forall>vs loc iloc n. src_aliases src \<noteq> [] \<longrightarrow> k \<in> set vs \<longrightarrow>
            (\<exists>e. getAliasedDF (n + 2002) src (Some vs) loc iloc = Some (Inl e))) \<and>
         (\<forall>pre post loc iloc n s1 s2. src_aliases src \<noteq> [] \<longrightarrow>
            spy_loc (Suc n) (spy_init (src_aliases src) (map fst (vardict src))) loc
              = Some (Inr s1) \<longrightarrow>
            spy_trace (Suc n) s1 pre = Some (Inr s2) \<longrightarrow>
            getAliasedDF (Suc n) src (Some (pre @ k # post)) loc iloc
              = Some (Inl (unknown_error s2 k))) \<and>
         (\<forall>pre post iloc n. src_aliases src = [] \<longrightarrow>
            getAliasedDF n src (Some (pre @ k # post)) None iloc =
              Some (case get_df src (Some (pre @ post)) of
                      Inl e \<Rightarrow> Inl e
                    | Inr df \<Rightarrow> Inr (df_iloc iloc df)))"
proof (intro conjI allI impI)
  fix s :: spy and m
  assume "spy_ok s" "spy_aliases s = src_aliases src" "vnames_valid s = map fst (vardict src)"
  with assms show "spy_getitem (Suc m) s k = Some (Inl (unknown_error s k))"
    by (intro spy_getitem_unknown) simp_all
next
  fix n f m t vnames iloc
  assume "spy_asks n (spy_init (src_aliases src) (map fst (vardict src))) f (Suc m) k t"
  from filter_unknown_fails[OF this _ assms]
  show "getAliasedDF n src vnames (Some f) iloc = Some (Inl (unknown_error t k))" by simp
next
  fix n c vnames iloc
  let ?s0 = "spy_init (src_aliases src) (map fst (vardict src))"
  have "spy_asks (Suc (Suc n)) ?s0 (Get k c) (Suc n) k ?s0" by (rule spy_asks.here)
  from filter_unknown_fails[OF this _ assms]
  show "getAliasedDF (Suc (Suc n)) src vnames (Some (Get k c)) iloc
      = Some (Inl (KeyError (not_valid_msg k)))"
    by (simp add: unknown_error_def spy_init_simps)
next
  fix vs loc iloc and n :: nat
  assume al: "src_aliases src \<noteq> []" and k: "k \<in> set vs"
  let ?s0 = "spy_init (src_aliases src) (map fst (vardict src))"
  let ?n = "n + 2002"
  from spy_loc_total[of ?n ?s0 loc] obtain r where r: "spy_loc ?n ?s0 loc = Some r" by auto
  show "\<exists>e. getAliasedDF ?n src (Some vs) loc iloc = Some (Inl e)"
  proof (cases r)
    case (Inl e)
    with r getAliasedDF_loc_Inl show ?thesis by blast
  next
    case (Inr s1)
    with r have sl: "spy_loc ?n ?s0 loc = Some (Inr s1)" by simp
    from spy_loc_Inr[OF sl] spy_ok_init have ok1: "spy_ok s1" and e1: "spy_ext ?s0 s1" by simp_all
    from spy_trace_total[of ?n s1 vs] obtain t where t: "spy_trace ?n s1 vs = Some t" by auto
    show ?thesis
    proof (cases t)
      case (Inl e)
      with t getAliasedDF_trace_Inl[OF al sl] show ?thesis by blast
    next
      case (Inr s2)
      with t have st: "spy_trace ?n s1 vs = Some (Inr s2)" by simp
      from spy_trace_Inr[OF st] ok1 k have ok2: "spy_ok s2" and e2: "spy_ext s1 s2"
          and "aliasing_map s2 k \<noteq> None" by simp_all
      then obtain e where e: "aliasing_map s2 k = Some e" by auto
      from e1 e2 have a: "spy_aliases s2 = src_aliases src"
          "vnames_valid s2 = map fst (vardict src)"
        by (simp_all add: spy_ext_def spy_init_simps)
      from spy_ok_entry[OF ok2 e] a assms(1) have "e = None" by (simp add: resolution_def)
      with e ok2 have "k \<in> set (vnames_valid s2)" unfolding spy_ok_def by blast
      with a assms(2) show ?thesis by simp
    qed
  qed
next
  fix pre post loc iloc n s1 s2
  let ?s0 = "spy_init (src_aliases src) (map fst (vardict src))"
  assume al: "src_aliases src \<noteq> []"
    and sl: "spy_loc (Suc n) ?s0 loc = Some (Inr s1)"
    and st: "spy_trace (Suc n) s1 pre = Some (Inr s2)"
  from spy_loc_Inr[OF sl] spy_ok_init have ok1: "spy_ok s1" and e1: "spy_ext ?s0 s1" by simp_all
  from spy_trace_Inr[OF st] ok1 have ok2: "spy_ok s2" and e2: "spy_ext s1 s2" by simp_all
  from e1 e2 have a: "spy_aliases s2 = src_aliases src" "vnames_valid s2 = map fst (vardict src)"
    by (simp_all add: spy_ext_def spy_init_simps)
  from a assms have "spy_getitem (Suc n) s2 k = Some (Inl (unknown_error s2 k))"
    by (intro spy_getitem_unknown[OF ok2]) simp_all
  then have "spy_trace (Suc n) s1 (pre @ k # post) = Some (Inl (unknown_error s2 k))"
    by (simp add: spy_trace_append st del: spy_getitem.simps)
  from getAliasedDF_trace_Inl[OF al sl this]
  show "getAliasedDF (Suc n) src (Some (pre @ k # post)) loc iloc
      = Some (Inl (unknown_error s2 k))" .
next
  fix pre post iloc n
  assume "src_aliases src = []"
  from fast_path_drops[OF this assms(2)]
  show "getAliasedDF n src (Some (pre @ k # post)) None iloc =
      Some (case get_df src (Some (pre @ post)) of
              Inl e \<Rightarrow> Inl e
            | Inr df \<Rightarrow> Inr (df_iloc iloc df))" .
qed

lemma re_Q:
  "re_search (regex alias_B) ''Q'' = None" "re_search (regex alias_A) ''Q'' = None"
  by code_simp+

lemma src_unknown_Q:
  "src_aliases src_BA = [alias_B, alias_A]"
  "find_alias (src_aliases src_BA) ''Q'' = None"
  "''Q'' \<notin> set (map fst (vardict src_BA))"
  "src_aliases src_plain = []"
  "find_alias (src_aliases src_plain) ''Q'' = None"
  "''Q'' \<notin> set (map fst (vardict src_plain))"
  by (simp_all add: re_Q src_aliases_def src_BA_def src_plain_def)

lemma get_df_plain_X:
  "get_df src_plain (Some [''X'']) = Inr ([0, 1, 2], [(''X'', [Int64 1, Int64 2, Int64 3])])"
  by code_simp

theorem unknown_name_rejected_witness:
  "find_alias (src_aliases src_BA) ''Q'' = None \<and> ''Q'' \<notin> set (map fst (vardict src_BA)) \<and>
   src_aliases src_BA \<noteq> [] \<and>
   find_alias (src_aliases src_plain) ''Q'' = None \<and>
   ''Q'' \<notin> set (map fst (vardict src_plain)) \<and> src_aliases src_plain = [] \<and>
   spy_getitem (Suc 0) (spy_init (src_aliases src_BA) (map fst (vardict src_BA))) ''Q''
     = Some (Inl (KeyError (not_valid_msg ''Q''))) \<and>
   getAliasedDF 2 src_BA (Some [''B'']) (Some filter_Q_gt1) None
     = Some (Inl (KeyError (not_valid_msg ''Q''))) \<and>
   getAliasedDF 2 src_plain (Some [''X'']) (Some filter_Q_gt1) None
     = Some (Inl (KeyError (not_valid_msg ''Q''))) \<and>
   getAliasedDF 2 src_plain None (Some filter_Q_gt1) None
     = Some (Inl (KeyError (not_valid_msg ''Q''))) \<and>
   (\<exists>e. getAliasedDF 2002 src_BA (Some [''B'', ''Q'']) None None = Some (Inl e)) \<and>
   getAliasedDF (Suc 0) src_BA (Some [''Q'']) None None
     = Some (Inl (KeyError (not_valid_msg ''Q''))) \<and>
   getAliasedDF 1 src_plain (Some [''X'', ''Q'']) None None
     = Some (Inr ([0, 1, 2], [(''X'', [Int64 1, Int64 2, Int64 3])]))"
proof -
  note t = unknown_name_rejected[OF src_unknown_Q(2,3)]
  note u = unknown_name_rejected[OF src_unknown_Q(5,6)]
  let ?s0 = "spy_init (src_aliases src_BA) (map fst (vardict src_BA))"
  have ne: "src_aliases src_BA \<noteq> []" by (simp add: src_unknown_Q(1))
  from t spy_ok_init[of "src_aliases src_BA" "map fst (vardict src_BA)"]
  have "spy_getitem (Suc 0) ?s0 ''Q'' = Some (Inl (unknown_error ?s0 ''Q''))"
    by (simp only: spy_init_simps)
  then have 1: "spy_getitem (Suc 0) ?s0 ''Q'' = Some (Inl (KeyError (not_valid_msg ''Q'')))"
    by (simp add: unknown_error_def spy_init_simps)
  from t have "getAliasedDF (Suc (Suc 0)) src_BA (Some [''B''])
      (Some (Get ''Q'' (\<lambda>x. Ret (map_out (cell_gt 1) x)))) None
     = Some (Inl (KeyError (not_valid_msg ''Q'')))" by blast
  then have 2: "getAliasedDF 2 src_BA (Some [''B'']) (Some filter_Q_gt1) None
     = Some (Inl (KeyError (not_valid_msg ''Q'')))"
    by (simp only: filter_Q_gt1_def numeral_2_eq_2)
  from u have "getAliasedDF (Suc (Suc 0)) src_plain (Some [''X''])
      (Some (Get ''Q'' (\<lambda>x. Ret (map_out (cell_gt 1) x)))) None
     = Some (Inl (KeyError (not_valid_msg ''Q'')))" by blast
  then have 3: "getAliasedDF 2 src_plain (Some [''X'']) (Some filter_Q_gt1) None
     = Some (Inl (KeyError (not_valid_msg ''Q'')))"
    by (simp only: filter_Q_gt1_def numeral_2_eq_2)
  from u have "getAliasedDF (Suc (Suc 0)) src_plain None
      (Some (Get ''Q'' (\<lambda>x. Ret (map_out (cell_gt 1) x)))) None
     = Some (Inl (KeyError (not_valid_msg ''Q'')))" by blast
  then have 4: "getAliasedDF 2 src_plain None (Some filter_Q_gt1) None
     = Some (Inl (KeyError (not_valid_msg ''Q'')))"
    by (simp only: filter_Q_gt1_def numeral_2_eq_2)
  from t ne have "\<exists>e. getAliasedDF (0 + 2002) src_BA (Some [''B'', ''Q'']) None None = Some (Inl e)"
    by (meson list.set_intros(1,2))
  then have 5: "\<exists>e. getAliasedDF 2002 src_BA (Some [''B'', ''Q'']) None None = Some (Inl e)"
    by simp
  have l: "spy_loc (Suc 0) ?s0 None = Some (Inr ?s0)" by (simp add: spy_loc_def)
  have r: "spy_trace (Suc 0) ?s0 [] = Some (Inr ?s0)" by simp
  from t ne l r have "getAliasedDF (Suc 0) src_BA (Some ([] @ ''Q'' # [])) None None =
      Some (Inl (unknown_error ?s0 ''Q''))" by blast
  then have 6: "getAliasedDF (Suc 0) src_BA (Some [''Q'']) None None
      = Some (Inl (KeyError (not_valid_msg ''Q'')))"
    by (simp add: unknown_error_def spy_init_simps)
  from u src_unknown_Q(4) have "getAliasedDF 1 src_plain (Some ([''X''] @ ''Q'' # [])) None None =
      Some (case get_df src_plain (Some ([''X''] @ [])) of
              Inl e \<Rightarrow> Inl e
            | Inr df \<Rightarrow> Inr (df_iloc None df))" by blast
  then have 7: "getAliasedDF 1 src_plain (Some [''X'', ''Q'']) None None
     = Some (Inr ([0, 1, 2], [(''X'', [Int64 1, Int64 2, Int64 3])]))"
    by (simp add: get_df_plain_X df_iloc_def)
  from src_unknown_Q(2,3,5,6,4) ne 1 2 3 4 5 6 7 show ?thesis by (simp only: simp_thms)
qed

text \<open>
  On a source without alias group a request that holds the unknown name \<^verbatim>\<open>Q\<close> is
  answered with a table: \<^verbatim>\<open>_clean_var_list\<close> leaves \<^verbatim>\<open>Q\<close> out and the other column
  is returned.
\<close>

lemma fetch_plain_XQ:
  "getAliasedDF 1 src_plain (Some [''X'', ''Q'']) None None
     = Some (Inr ([0, 1, 2], [(''X'', [Int64 1, Int64 2, Int64 3])]))"
  by code_simp

theorem unknown_name_dropped:
  "find_alias (src_aliases src_plain) ''Q'' = None \<and>
   ''Q'' \<notin> set (map fst (vardict src_plain)) \<and>
   alias_grp src_plain = None \<and>
   getAliasedDF 1 src_plain (Some [''X'', ''Q'']) None None
     = Some (Inr ([0, 1, 2], [(''X'', [Int64 1, Int64 2, Int64 3])]))"
  using fetch_plain_XQ src_unknown_Q(5,6) by (simp add: src_plain_def)

section \<open>The map the spy ends with is closed\<close>

lemma uniform_Get:
  "uniform (Get key k) \<Longrightarrow> uniform (k v) \<and> skel (k v) = skel (k df_dum)"
  by simp









section \<open>The materialize pass returns\<close>













section \<open>Columns and rows of the table returned\<close>

































end
